theory Spec2Isabelle
  imports Main "HOL-Library.Word"
begin

unbundle bit_operations_syntax

chapter \<open>The model\<close>

section \<open>Status codes\<close>

text \<open>
  The status codes are plain C integers declared in headers that are not part of the
  sources at hand (\<^verbatim>\<open>status-codes.h\<close>, \<^verbatim>\<open>errors.h\<close>). Only their
  identity matters to the functions below, so each code that the sources name is a
  constructor and every other integer code is \<open>other_status\<close>. The sources compare one
  and the same \<open>int\<close> against \<open>UDS_SUCCESS\<close> and \<open>VDO_SUCCESS\<close>: both are the success
  code.
\<close>

datatype status =
    UDS_SUCCESS
  | UDS_CORRUPT_COMPONENT
  | UDS_CORRUPT_DATA
  | UDS_ASSERTION_FAILED
  | VDO_OUT_OF_RANGE
  | VDO_CORRUPT_JOURNAL
  | VDO_INVALID_FRAGMENT
  | VDO_READ_ONLY
  | other_status nat

abbreviation VDO_SUCCESS :: status where
  "VDO_SUCCESS \<equiv> UDS_SUCCESS"

section \<open>Recovery journal check byte (recovery-journal.h)\<close>

text \<open>
  \<^verbatim>\<open>return (((sequence / journal->size) & 0x7F) | 0x80);\<close> with a 64-bit sequence
  number and a 64-bit journal size (\<open>block_count_t\<close>), narrowed to \<open>uint8_t\<close> by the
  return type. Only the \<open>size\<close> field of the journal is read. A journal of size 0 makes
  the C division undefined; the theorems below therefore ask for a non-zero size.
\<close>

record recovery_journal =
  journal_size :: "64 word"

definition compute_vdo_recovery_journal_check_byte ::
    "recovery_journal \<Rightarrow> 64 word \<Rightarrow> 8 word" where
  "compute_vdo_recovery_journal_check_byte journal sequence =
     ucast (((sequence div journal_size journal) AND 0x7F) OR 0x80)"
section \<open>Block map slot lookup (blockMap.c)\<close>

text \<open>
  The fields of \<^verbatim>\<open>struct block_map\<close>, \<^verbatim>\<open>struct tree_lock\<close> and
  \<^verbatim>\<open>struct data_vio\<close> that \<^verbatim>\<open>vdo_compute_logical_zone\<close> and
  \<^verbatim>\<open>vdo_find_block_map_slot\<close> read or write. Widths follow \<^verbatim>\<open>types.h\<close>:
  logical block numbers and block counts are 64-bit, page numbers 32-bit, slot numbers
  16-bit, root, zone and thread counts 8-bit. \<open>tree_slots[0]\<close> is flattened into the two
  fields \<open>page_index\<close> and \<open>slot\<close>.
\<close>

record block_map =
  root_count :: "8 word"
  zone_count :: "8 word"
  entry_count :: "64 word"

record 'cb tree_lock =
  root_index :: "8 word"
  page_index :: "32 word"
  slot :: "16 word"
  callback :: "'cb option"
  thread_id :: "8 word"

record 'cb data_vio =
  lbn :: "64 word"
  tree_lock :: "'cb tree_lock"

text \<open>
  Modelled from the spec: \<^verbatim>\<open>vdo_compute_page_number\<close> and \<^verbatim>\<open>vdo_compute_slot\<close>
  (declared in a header that is not among the sources) are
  \<open>page_index = lbn / entries_per_page\<close> and \<open>slot = lbn % entries_per_page\<close>, narrowed to
  the types of the variables that receive them (\<open>page_number_t\<close>, \<open>slot_number_t\<close>).
  The compile-time constant \<^verbatim>\<open>VDO_BLOCK_MAP_ENTRIES_PER_PAGE\<close> is not defined in the
  sources either and is passed as the first argument.
\<close>

definition vdo_compute_page_number :: "64 word \<Rightarrow> 64 word \<Rightarrow> 32 word" where
  "vdo_compute_page_number entries_per_page l = ucast (l div entries_per_page)"

definition vdo_compute_slot :: "64 word \<Rightarrow> 64 word \<Rightarrow> 16 word" where
  "vdo_compute_slot entries_per_page l = ucast (l mod entries_per_page)"

text \<open>
  \<^verbatim>\<open>vdo_compute_logical_zone\<close> stores the page number and the root index in the tree
  lock and returns the zone. Both remainders are taken in \<open>unsigned int\<close> / \<open>int\<close> after
  the usual promotions and fit the 8-bit fields they are stored in. A zero \<open>root_count\<close>
  or \<open>zone_count\<close> makes the C remainder undefined: the model returns \<open>None\<close>.
\<close>

definition vdo_compute_logical_zone ::
    "64 word \<Rightarrow> block_map \<Rightarrow> 'cb data_vio \<Rightarrow> (8 word \<times> 'cb data_vio) option" where
  "vdo_compute_logical_zone entries_per_page bmap dv =
     (if root_count bmap = 0 \<or> zone_count bmap = 0 then None
      else
        let page_number = vdo_compute_page_number entries_per_page (lbn dv);
            ri = (ucast (page_number mod ucast (root_count bmap)) :: 8 word);
            tl = (tree_lock dv)\<lparr>page_index := page_number, root_index := ri\<rparr>
        in Some (ri mod zone_count bmap, dv\<lparr>tree_lock := tl\<rparr>))"

text \<open>
  \<^verbatim>\<open>vdo_find_block_map_slot\<close> ends in one of two calls, which are the two outcomes of
  the model: \<^verbatim>\<open>finish_data_vio(data_vio, result)\<close> or
  \<^verbatim>\<open>vdo_lookup_block_map_pbn(data_vio)\<close>, each with the data_vio as it is at the call.
\<close>

datatype 'cb find_slot_outcome =
    finish_data_vio "'cb data_vio" status
  | vdo_lookup_block_map_pbn "'cb data_vio"

definition vdo_find_block_map_slot ::
    "64 word \<Rightarrow> block_map \<Rightarrow> 'cb data_vio \<Rightarrow> 'cb \<Rightarrow> 8 word \<Rightarrow> 'cb find_slot_outcome" where
  "vdo_find_block_map_slot entries_per_page bmap dv cb tid =
     (if lbn dv \<ge> entry_count bmap then finish_data_vio dv VDO_OUT_OF_RANGE
      else vdo_lookup_block_map_pbn
             (dv\<lparr>tree_lock := (tree_lock dv)
                   \<lparr>slot := vdo_compute_slot entries_per_page (lbn dv),
                    callback := Some cb,
                    thread_id := tid\<rparr>\<rparr>))"

section \<open>Compressed block fragments (blockMappingState.h, compressed-block.c)\<close>

text \<open>
  \<^verbatim>\<open>enum block_mapping_state\<close> has no negative enumerator, so it is an unsigned 32-bit
  value; \<^verbatim>\<open>byte\<close> is \<open>uint8_t\<close> and \<^verbatim>\<open>block_size_t\<close> is \<open>uint16_t\<close>.
\<close>

definition VDO_MAPPING_STATE_UNCOMPRESSED :: "32 word" where
  "VDO_MAPPING_STATE_UNCOMPRESSED = 1"

definition VDO_MAPPING_STATE_COMPRESSED_BASE :: "32 word" where
  "VDO_MAPPING_STATE_COMPRESSED_BASE = 2"

definition VDO_MAPPING_STATE_COMPRESSED_MAX :: "32 word" where
  "VDO_MAPPING_STATE_COMPRESSED_MAX = 15"

definition VDO_MAX_COMPRESSION_SLOTS :: nat where
  "VDO_MAX_COMPRESSION_SLOTS =
     unat (VDO_MAPPING_STATE_COMPRESSED_MAX - VDO_MAPPING_STATE_COMPRESSED_BASE + 1)"

definition vdo_get_slot_from_state :: "32 word \<Rightarrow> 8 word" where
  "vdo_get_slot_from_state mapping_state =
     ucast (mapping_state - VDO_MAPPING_STATE_COMPRESSED_BASE)"

definition vdo_is_state_compressed :: "32 word \<Rightarrow> bool" where
  "vdo_is_state_compressed mapping_state \<longleftrightarrow> mapping_state > VDO_MAPPING_STATE_UNCOMPRESSED"

text \<open>
  The \<^verbatim>\<open>char *buffer\<close> is the memory it points to: a byte for every offset. The header
  is read through little-endian accessors.
\<close>

type_synonym buffer = "nat \<Rightarrow> 8 word"

definition le16_to_cpu :: "buffer \<Rightarrow> nat \<Rightarrow> 16 word" where
  "le16_to_cpu buf off = ucast (buf off) OR push_bit 8 (ucast (buf (off + 1)))"

definition le32_to_cpu :: "buffer \<Rightarrow> nat \<Rightarrow> 32 word" where
  "le32_to_cpu buf off =
     ucast (buf off) OR push_bit 8 (ucast (buf (off + 1)))
       OR push_bit 16 (ucast (buf (off + 2))) OR push_bit 24 (ucast (buf (off + 3)))"

record version_number =
  major_version :: "32 word"
  minor_version :: "32 word"

definition COMPRESSED_BLOCK_1_0 :: version_number where
  "COMPRESSED_BLOCK_1_0 = \<lparr>major_version = 1, minor_version = 0\<rparr>"

definition COMPRESSED_BLOCK_1_0_SIZE :: nat where
  "COMPRESSED_BLOCK_1_0_SIZE = 4 + 4 + (2 * VDO_MAX_COMPRESSION_SLOTS)"

text \<open>
  Modelled from the spec: \<^verbatim>\<open>struct compressed_block_header\<close>,
  \<^verbatim>\<open>vdo_unpack_version_number\<close> and \<^verbatim>\<open>vdo_are_same_version\<close> are declared in
  headers that are not among the sources. The spec gives the layout
  \<open>{ version = 1.0, sizes[MAX_COMPRESSION_SLOTS], data[...] }\<close> packed little-endian, and
  the source fixes the header at \<open>4 + 4 + 2 * VDO_MAX_COMPRESSION_SLOTS\<close> bytes: a 4-byte
  major and a 4-byte minor version, then the 2-byte sizes.
\<close>

definition vdo_unpack_version_number :: "buffer \<Rightarrow> version_number" where
  "vdo_unpack_version_number buf =
     \<lparr>major_version = le32_to_cpu buf 0, minor_version = le32_to_cpu buf 4\<rparr>"

definition vdo_are_same_version :: "version_number \<Rightarrow> version_number \<Rightarrow> bool" where
  "vdo_are_same_version a b \<longleftrightarrow>
     major_version a = major_version b \<and> minor_version a = minor_version b"

definition get_compressed_fragment_size :: "buffer \<Rightarrow> nat \<Rightarrow> 16 word" where
  "get_compressed_fragment_size header slot_no = le16_to_cpu header (8 + 2 * slot_no)"

text \<open>
  The loop \<^verbatim>\<open>for (i = 0; i < slot; i++) { offset += size(i); if (offset >= block_size)
  return VDO_INVALID_FRAGMENT; }\<close> over the sizes of the earlier slots. \<open>offset\<close> is a
  \<open>uint16_t\<close>: the addition wraps modulo \<open>2^16\<close>. \<open>None\<close> is the early return.
\<close>

fun add_fragment_sizes :: "16 word \<Rightarrow> 16 word \<Rightarrow> 16 word list \<Rightarrow> 16 word option" where
  "add_fragment_sizes block_size offset [] = Some offset"
| "add_fragment_sizes block_size offset (sz # rest) =
     (let offset' = offset + sz
      in if offset' \<ge> block_size then None
         else add_fragment_sizes block_size offset' rest)"

text \<open>
  The result is the status and, when written, \<open>(*fragment_offset, *fragment_size)\<close>. The
  final test \<^verbatim>\<open>(offset + compressed_size) > block_size\<close> is evaluated in \<open>int\<close> after
  promotion, so it does not wrap.
\<close>

definition vdo_get_compressed_block_fragment ::
    "32 word \<Rightarrow> buffer \<Rightarrow> 16 word \<Rightarrow> status \<times> (16 word \<times> 16 word) option" where
  "vdo_get_compressed_block_fragment mapping_state buf block_size =
     (if \<not> vdo_is_state_compressed mapping_state then (VDO_INVALID_FRAGMENT, None)
      else if \<not> vdo_are_same_version (vdo_unpack_version_number buf) COMPRESSED_BLOCK_1_0
        then (VDO_INVALID_FRAGMENT, None)
      else
        let slot_no = unat (vdo_get_slot_from_state mapping_state) in
        if slot_no \<ge> VDO_MAX_COMPRESSION_SLOTS then (VDO_INVALID_FRAGMENT, None)
        else
          let compressed_size = get_compressed_fragment_size buf slot_no in
          case add_fragment_sizes block_size (word_of_nat COMPRESSED_BLOCK_1_0_SIZE)
                 (map (get_compressed_fragment_size buf) [0..<slot_no]) of
            None \<Rightarrow> (VDO_INVALID_FRAGMENT, None)
          | Some offset \<Rightarrow>
              if unat offset + unat compressed_size > unat block_size
              then (VDO_INVALID_FRAGMENT, None)
              else (VDO_SUCCESS, Some (offset, compressed_size)))"

text \<open>A buffer given by its first bytes; every byte after them is 0.\<close>

definition buffer_of :: "8 word list \<Rightarrow> buffer" where
  "buffer_of bytes = (\<lambda>i. if i < length bytes then bytes ! i else 0)"

section \<open>Slab scrubber (slabScrubber.c)\<close>

text \<open>
  The data \<^verbatim>\<open>apply_block_entries\<close> and \<^verbatim>\<open>apply_journal_entries\<close> work on.
  Sequence numbers, nonces and physical block numbers are 64-bit, slab block numbers
  32-bit, entry counts 16-bit. A journal point is \<open>(sequence_number, entry_count)\<close>; its
  fields are prefixed with \<open>point_\<close> here, and the entry count of a block header is
  \<open>block_entry_count\<close>, because a record field name can be used only once. The fields
  \<open>start\<close>, \<open>end\<close> and \<open>allocator->nonce\<close> of a slab are \<open>slab_start\<close>, \<open>slab_end\<close> and
  \<open>allocator_nonce\<close>; \<open>journal->size\<close> is \<open>journal_blocks\<close>.
\<close>

datatype journal_operation =
    DATA_DECREMENT
  | DATA_INCREMENT
  | BLOCK_MAP_DECREMENT
  | BLOCK_MAP_INCREMENT

record slab_journal_entry =
  sbn :: "32 word"
  operation :: journal_operation

record journal_point =
  point_sequence_number :: "64 word"
  point_entry_count :: "16 word"

record slab_journal_block_header =
  head :: "64 word"
  sequence_number :: "64 word"
  nonce :: "64 word"
  metadata_type :: "8 word"
  block_entry_count :: "16 word"
  has_block_map_increments :: bool

definition VDO_METADATA_SLAB_JOURNAL :: "8 word" where
  "VDO_METADATA_SLAB_JOURNAL = 2"

text \<open>
  A packed journal block is its header, as \<^verbatim>\<open>unpack_vdo_slab_journal_block_header\<close>
  reads it, and its payload, as \<^verbatim>\<open>decode_vdo_slab_journal_entry\<close> reads it entry by
  entry (both decoders are outside the sources at hand).
\<close>

record packed_slab_journal_block =
  header :: slab_journal_block_header
  payload :: "nat \<Rightarrow> slab_journal_entry"

definition decode_vdo_slab_journal_entry ::
    "packed_slab_journal_block \<Rightarrow> nat \<Rightarrow> slab_journal_entry" where
  "decode_vdo_slab_journal_entry block i = payload block i"

record slab_journal =
  tail :: "64 word"
  journal_blocks :: "64 word"
  entries_per_block :: "16 word"
  full_entries_per_block :: "16 word"

record vdo_slab =
  slab_number :: "16 word"
  slab_start :: "64 word"
  slab_end :: "64 word"
  allocator_nonce :: "64 word"
  journal :: slab_journal

record 'c ref_counts =
  slab_journal_point :: journal_point
  counters :: 'c

text \<open>
  \<^verbatim>\<open>vdo_replay_reference_count_change\<close> is not among the sources. It is a parameter:
  a function from the reference counts, the entry's journal point and the entry to a
  status and the reference counts it leaves. Every call of it is also recorded, in
  order, in a log of \<open>(journal point, entry)\<close> pairs, so that "this entry was never
  applied" can be stated.
\<close>

type_synonym 'c replay =
  "'c ref_counts \<Rightarrow> journal_point \<Rightarrow> slab_journal_entry \<Rightarrow> status \<times> 'c ref_counts"

type_synonym replay_log = "(journal_point \<times> slab_journal_entry) list"

text \<open>
  The loop of \<^verbatim>\<open>apply_block_entries\<close>, from entry \<open>i\<close> on. The counter
  \<open>entry_point.entry_count\<close> stays below the 16-bit \<open>entry_count\<close>, so its increment
  cannot wrap.
\<close>

function apply_entries_from ::
    "'c replay \<Rightarrow> packed_slab_journal_block \<Rightarrow> nat \<Rightarrow> 64 word \<Rightarrow> 32 word \<Rightarrow> nat
       \<Rightarrow> 'c ref_counts \<Rightarrow> replay_log \<Rightarrow> status \<times> 'c ref_counts \<times> replay_log" where
  "apply_entries_from replay block n block_number max_sbn i refs log =
     (if i < n then
        let entry = decode_vdo_slab_journal_entry block i in
        if sbn entry > max_sbn then (VDO_CORRUPT_JOURNAL, refs, log)
        else
          let entry_point = \<lparr>point_sequence_number = block_number,
                             point_entry_count = word_of_nat i\<rparr>
          in case replay refs entry_point entry of
               (result, refs') \<Rightarrow>
                 if result \<noteq> VDO_SUCCESS then (result, refs', log @ [(entry_point, entry)])
                 else apply_entries_from replay block n block_number max_sbn (Suc i)
                        refs' (log @ [(entry_point, entry)])
      else (VDO_SUCCESS, refs, log))"
  by pat_completeness auto
termination
  by (relation "measure (\<lambda>(replay, block, n, block_number, max_sbn, i, refs, log). n - i)") auto

declare apply_entries_from.simps [simp del]

definition apply_block_entries ::
    "'c replay \<Rightarrow> packed_slab_journal_block \<Rightarrow> 16 word \<Rightarrow> 64 word \<Rightarrow> vdo_slab
       \<Rightarrow> 'c ref_counts \<Rightarrow> replay_log \<Rightarrow> status \<times> 'c ref_counts \<times> replay_log" where
  "apply_block_entries replay block n_entries block_number slab refs log =
     (let max_sbn = (ucast (slab_end slab - slab_start slab) :: 32 word)
      in apply_entries_from replay block (unat n_entries) block_number max_sbn 0 refs log)"

text \<open>
  What \<^verbatim>\<open>apply_journal_entries\<close> does besides replaying entries is a sequence of
  calls, recorded as events. \<^verbatim>\<open>abort_scrubbing\<close> makes three of them.
\<close>

datatype scrub_event =
    vdo_enter_read_only_mode status
  | set_vdo_completion_result status
  | scrub_next_slab
  | start_vdo_slab_action_SAVE_FOR_SCRUBBING

definition abort_scrubbing :: "status \<Rightarrow> scrub_event list" where
  "abort_scrubbing result =
     [vdo_enter_read_only_mode result, set_vdo_completion_result result, scrub_next_slab]"

text \<open>
  Modelled from the spec: \<^verbatim>\<open>get_vdo_slab_journal_block_offset\<close> and
  \<^verbatim>\<open>before_vdo_journal_point\<close> are not among the sources. The slab journal is a
  circular log, so the block of a sequence number sits at that number modulo the
  journal's size; journal points are ordered by sequence number, then entry count.
\<close>

definition get_vdo_slab_journal_block_offset :: "slab_journal \<Rightarrow> 64 word \<Rightarrow> 64 word" where
  "get_vdo_slab_journal_block_offset j sequence = sequence mod journal_blocks j"

definition before_vdo_journal_point :: "journal_point \<Rightarrow> journal_point \<Rightarrow> bool" where
  "before_vdo_journal_point first second \<longleftrightarrow>
     point_sequence_number first < point_sequence_number second
     \<or> (point_sequence_number first = point_sequence_number second
        \<and> point_entry_count first < point_entry_count second)"

text \<open>
  The \<^verbatim>\<open>for (sequence = head; sequence < tail; sequence++)\<close> loop of
  \<^verbatim>\<open>apply_journal_entries\<close>, from \<open>sequence\<close> on, over the journal blocks read into
  \<open>journal_data\<close> (one block per index). The first component of the result is the error
  the loop aborted with, if it did.
\<close>

text \<open>
  The test a block must pass before its entries are applied, and the step
  \<^verbatim>\<open>index++; if (index == journal->size) index = 0;\<close> to the next block of the
  circular journal. \<open>block_index_after slab index k\<close> is the index \<open>k\<close> steps later.
\<close>

definition block_fails_validation ::
    "vdo_slab \<Rightarrow> slab_journal_block_header \<Rightarrow> 64 word \<Rightarrow> bool" where
  "block_fails_validation slab hdr sequence \<longleftrightarrow>
     nonce hdr \<noteq> allocator_nonce slab
     \<or> metadata_type hdr \<noteq> VDO_METADATA_SLAB_JOURNAL
     \<or> sequence_number hdr \<noteq> sequence
     \<or> block_entry_count hdr > entries_per_block (journal slab)
     \<or> (has_block_map_increments hdr
         \<and> block_entry_count hdr > full_entries_per_block (journal slab))"

definition next_block_index :: "vdo_slab \<Rightarrow> 64 word \<Rightarrow> 64 word" where
  "next_block_index slab index =
     (if index + 1 = journal_blocks (journal slab) then 0 else index + 1)"

definition block_index_after :: "vdo_slab \<Rightarrow> 64 word \<Rightarrow> nat \<Rightarrow> 64 word" where
  "block_index_after slab index k = (next_block_index slab ^^ k) index"

lemma sequence_step_decreases:
  fixes sequence tl_seq :: "64 word"
  assumes "sequence < tl_seq"
  shows "unat tl_seq - unat (sequence + 1) < unat tl_seq - unat sequence"
proof -
  have lt: "unat sequence < unat tl_seq"
    using assms by (simp add: word_less_nat_alt)
  then have "unat sequence + 1 < 2 ^ 64"
    using unsigned_less [of tl_seq, where ?'a = nat] by simp
  then have "unat (sequence + 1) = unat sequence + 1"
    by (simp add: unat_word_ariths)
  then show ?thesis using lt by simp
qed

function scrub_blocks ::
    "'c replay \<Rightarrow> (nat \<Rightarrow> packed_slab_journal_block) \<Rightarrow> vdo_slab \<Rightarrow> 64 word \<Rightarrow> 64 word
       \<Rightarrow> 64 word \<Rightarrow> journal_point \<Rightarrow> 'c ref_counts \<Rightarrow> replay_log
       \<Rightarrow> status option \<times> journal_point \<times> 'c ref_counts \<times> replay_log" where
  "scrub_blocks replay journal_data slab tl_seq sequence index last_entry_applied refs log =
     (if sequence < tl_seq then
        let block = journal_data (unat index);
            hdr = header block
        in if block_fails_validation slab hdr sequence
           then (Some VDO_CORRUPT_JOURNAL, last_entry_applied, refs, log)
           else
             case apply_block_entries replay block (block_entry_count hdr) sequence slab
                    refs log of
               (result, refs', log') \<Rightarrow>
                 if result \<noteq> VDO_SUCCESS then (Some result, last_entry_applied, refs', log')
                 else
                   scrub_blocks replay journal_data slab tl_seq (sequence + 1)
                     (next_block_index slab index)
                     \<lparr>point_sequence_number = sequence,
                      point_entry_count = block_entry_count hdr - 1\<rparr>
                     refs' log'
      else (None, last_entry_applied, refs, log))"
  by pat_completeness auto
termination
  by (relation "measure (\<lambda>(replay, journal_data, slab, tl_seq, sequence, index, last, refs, log).
                            unat tl_seq - unat sequence)")
     (auto simp: sequence_step_decreases)

declare scrub_blocks.simps [simp del]

definition apply_journal_entries ::
    "'c replay \<Rightarrow> (nat \<Rightarrow> packed_slab_journal_block) \<Rightarrow> vdo_slab \<Rightarrow> 'c ref_counts
       \<Rightarrow> scrub_event list \<times> 'c ref_counts \<times> replay_log" where
  "apply_journal_entries replay journal_data slab refs =
     (let j = journal slab;
          tl_seq = tail j;
          end_index = get_vdo_slab_journal_block_offset j (tl_seq - 1);
          end_block = journal_data (unat end_index);
          hd_seq = head (header end_block);
          head_index = get_vdo_slab_journal_block_offset j hd_seq;
          ref_counts_point = slab_journal_point refs
      in case scrub_blocks replay journal_data slab tl_seq hd_seq head_index
                ref_counts_point refs [] of
           (Some result, last_entry_applied, refs', log) \<Rightarrow>
             (abort_scrubbing result, refs', log)
         | (None, last_entry_applied, refs', log) \<Rightarrow>
             if before_vdo_journal_point last_entry_applied ref_counts_point
             then (abort_scrubbing UDS_ASSERTION_FAILED, refs', log)
             else ([start_vdo_slab_action_SAVE_FOR_SCRUBBING], refs', log))"

text \<open>
  What a log of replay calls says about the reference counts: the calls of a log, made
  in order from the reference counts \<open>refs\<close>, return the statuses
  \<open>call_statuses replay refs log\<close> and leave the reference counts
  \<open>refs_after_calls replay refs log\<close>. \<open>first_failure\<close> is the status of the first call
  of the log that did not succeed, if there is one.
\<close>

primrec call_statuses :: "'c replay \<Rightarrow> 'c ref_counts \<Rightarrow> replay_log \<Rightarrow> status list" where
  "call_statuses replay refs [] = []"
| "call_statuses replay refs (pe # log) =
     fst (replay refs (fst pe) (snd pe))
       # call_statuses replay (snd (replay refs (fst pe) (snd pe))) log"

primrec refs_after_calls :: "'c replay \<Rightarrow> 'c ref_counts \<Rightarrow> replay_log \<Rightarrow> 'c ref_counts" where
  "refs_after_calls replay refs [] = refs"
| "refs_after_calls replay refs (pe # log) =
     refs_after_calls replay (snd (replay refs (fst pe) (snd pe))) log"

definition first_failure :: "'c replay \<Rightarrow> 'c ref_counts \<Rightarrow> replay_log \<Rightarrow> status option" where
  "first_failure replay refs log =
     find (\<lambda>st. st \<noteq> VDO_SUCCESS) (call_statuses replay refs log)"

section \<open>Example inputs for the slab scrubber\<close>

text \<open>
  Two stand-ins for \<^verbatim>\<open>vdo_replay_reference_count_change\<close>: one that succeeds and
  appends the entry's slab block number to the reference counts (here a list), and one that
  fails with a given status. The example slab covers the physical blocks 100 to 107, so
  its size is 8; its journal has 4 blocks and its tail is 2.
\<close>

definition recording_replay :: "32 word list replay" where
  "recording_replay refs point entry =
     (VDO_SUCCESS, refs\<lparr>counters := counters refs @ [sbn entry]\<rparr>)"

definition failing_replay :: "status \<Rightarrow> 32 word list replay" where
  "failing_replay err refs point entry = (err, refs)"

definition example_slab :: vdo_slab where
  "example_slab =
     \<lparr>slab_number = 17, slab_start = 100, slab_end = 108, allocator_nonce = 1,
      journal = \<lparr>tail = 2, journal_blocks = 4, entries_per_block = 10,
                 full_entries_per_block = 5\<rparr>\<rparr>"

definition example_block ::
    "64 word \<Rightarrow> 64 word \<Rightarrow> 32 word list \<Rightarrow> packed_slab_journal_block" where
  "example_block seq nonce_value sbns =
     \<lparr>header = \<lparr>head = 0, sequence_number = seq, nonce = nonce_value,
                 metadata_type = VDO_METADATA_SLAB_JOURNAL,
                 block_entry_count = word_of_nat (length sbns),
                 has_block_map_increments = False\<rparr>,
      payload = (\<lambda>i. \<lparr>sbn = (if i < length sbns then sbns ! i else 0),
                       operation = DATA_INCREMENT\<rparr>)\<rparr>"

definition example_refs :: "32 word list ref_counts" where
  "example_refs =
     \<lparr>slab_journal_point = \<lparr>point_sequence_number = 0, point_entry_count = 0\<rparr>,
      counters = []\<rparr>"

text \<open>
  A journal whose block for sequence number 0 is sound and whose block for sequence
  number 1 carries the nonce 99 instead of the slab's nonce 1.
\<close>

definition example_journal_data :: "nat \<Rightarrow> packed_slab_journal_block" where
  "example_journal_data index =
     (if index = 0 then example_block 0 1 [3] else example_block 1 99 [4])"

section \<open>Page cache victim selection (vdo-page-cache.c)\<close>

text \<open>
  The page infos of a cache are addressed by their index in \<open>cache->infos\<close>; the LRU
  ring \<open>cache->lru_list\<close> is the list of the indices on it, least recently used first
  (\<^verbatim>\<open>update_lru\<close> moves a page to the tail). The header that declares the structures
  is not among the sources; the counters are taken as 32-bit, \<open>busy\<close> as 16-bit. The
  waiters on \<open>free_waiters\<close> are kept as a list of whatever identifies a completion.
\<close>

datatype vdo_page_buffer_state =
    PS_FREE
  | PS_INCOMING
  | PS_FAILED
  | PS_RESIDENT
  | PS_DIRTY
  | PS_OUTGOING

datatype vdo_page_write_status =
    WRITE_STATUS_NORMAL
  | WRITE_STATUS_DISCARD
  | WRITE_STATUS_DEFERRED

record page_info =
  pbn :: "64 word"
  busy :: "16 word"
  state :: vdo_page_buffer_state
  write_status :: vdo_page_write_status

record 'w vdo_page_cache =
  infos :: "nat \<Rightarrow> page_info"
  lru_list :: "nat list"
  free_waiters :: "'w list"
  page_count :: "32 word"
  waiter_count :: "32 word"
  discard_count :: "32 word"
  pressure_report :: "32 word"
  stats_cache_pressure :: "32 word"

definition LOG_INTERVAL :: "32 word" where
  "LOG_INTERVAL = 4000"

definition DISPLAY_INTERVAL :: "32 word" where
  "DISPLAY_INTERVAL = 100000"

definition is_dirty :: "page_info \<Rightarrow> bool" where
  "is_dirty info \<longleftrightarrow> state info = PS_DIRTY"

definition is_in_flight :: "page_info \<Rightarrow> bool" where
  "is_in_flight info \<longleftrightarrow> state info = PS_INCOMING \<or> state info = PS_OUTGOING"

text \<open>
  \<^verbatim>\<open>select_lru_page\<close>: walk the LRU ring from its head and return the first page that
  is neither busy nor in flight, or \<open>NULL\<close>.
\<close>

primrec first_discardable :: "(nat \<Rightarrow> page_info) \<Rightarrow> nat list \<Rightarrow> nat option" where
  "first_discardable page [] = None"
| "first_discardable page (lru # rest) =
     (if busy (page lru) = 0 \<and> \<not> is_in_flight (page lru) then Some lru
      else first_discardable page rest)"

definition select_lru_page :: "'w vdo_page_cache \<Rightarrow> nat option" where
  "select_lru_page cache = first_discardable (infos cache) (lru_list cache)"

text \<open>
  \<^verbatim>\<open>report_cache_pressure\<close>; the log lines leave the cache as it is.
\<close>

definition report_cache_pressure :: "'w vdo_page_cache \<Rightarrow> 'w vdo_page_cache" where
  "report_cache_pressure cache =
     (let cache1 = cache\<lparr>stats_cache_pressure := stats_cache_pressure cache + 1\<rparr>
      in if waiter_count cache1 > page_count cache1 then
           let report = pressure_report cache1 + 1
           in cache1\<lparr>pressure_report := (if report \<ge> DISPLAY_INTERVAL then 0 else report)\<rparr>
         else cache1)"

text \<open>
  \<^verbatim>\<open>discard_a_page\<close> ends in \<^verbatim>\<open>report_cache_pressure\<close>, in
  \<^verbatim>\<open>allocate_free_page(info)\<close> or in \<^verbatim>\<open>launch_page_save(info)\<close>. The result is
  the cache as \<open>discard_a_page\<close> itself leaves it and the call it ends in, with the
  index of the page concerned.
\<close>

datatype discard_outcome =
    cache_pressure_reported
  | allocate_free_page nat
  | launch_page_save nat

definition discard_a_page :: "'w vdo_page_cache \<Rightarrow> 'w vdo_page_cache \<times> discard_outcome" where
  "discard_a_page cache =
     (case select_lru_page cache of
        None \<Rightarrow> (report_cache_pressure cache, cache_pressure_reported)
      | Some info \<Rightarrow>
          if \<not> is_dirty (infos cache info) then (cache, allocate_free_page info)
          else
            (cache\<lparr>discard_count := discard_count cache + 1,
                   infos := (infos cache)
                     (info := (infos cache info)\<lparr>write_status := WRITE_STATUS_DISCARD\<rparr>)\<rparr>,
             launch_page_save info))"

section \<open>Example inputs for the page cache\<close>

text \<open>
  Four pages: page 0 is being written out, page 1 is resident and idle, page 2 is dirty
  and busy, page 3 is dirty and idle. One completion waits for a free page.
\<close>

definition example_pages :: "nat \<Rightarrow> page_info" where
  "example_pages i =
     (if i = 0 then \<lparr>pbn = 10, busy = 0, state = PS_OUTGOING, write_status = WRITE_STATUS_NORMAL\<rparr>
      else if i = 1 then \<lparr>pbn = 11, busy = 0, state = PS_RESIDENT, write_status = WRITE_STATUS_NORMAL\<rparr>
      else if i = 2 then \<lparr>pbn = 12, busy = 1, state = PS_DIRTY, write_status = WRITE_STATUS_NORMAL\<rparr>
      else \<lparr>pbn = 13, busy = 0, state = PS_DIRTY, write_status = WRITE_STATUS_NORMAL\<rparr>)"

definition example_cache :: "nat list \<Rightarrow> string vdo_page_cache" where
  "example_cache lru =
     \<lparr>infos = example_pages, lru_list = lru, free_waiters = [''requester''],
      page_count = 4, waiter_count = 1, discard_count = 0, pressure_report = 0,
      stats_cache_pressure = 0\<rparr>"

section \<open>Packer: writing out a bin (packer.c)\<close>

text \<open>
  A data_vio as the packer sees it: an identity, the size of its compressed fragment,
  the slot recorded in its compression state, and whether
  \<^verbatim>\<open>may_write_compressed_data_vio\<close> (not among the sources) would let it be written
  compressed. A bin holds its data_vios in \<open>incoming[0 .. slots_used)\<close>, here the list
  \<open>incoming\<close>, so \<open>slots_used\<close> is its length. \<open>write_bin\<close> is only called on the bins of
  the packer's list, never on the canceled bin, so the two are separate values.
\<close>

record packer_data_vio =
  vio_id :: nat
  compression_size :: "16 word"
  compression_slot :: "16 word"
  may_write_compressed :: bool

record packer_bin =
  incoming :: "packer_data_vio list"
  free_space :: "64 word"

record packer_statistics =
  compressed_fragments_written :: "64 word"
  compressed_blocks_written :: "64 word"
  compressed_fragments_in_packer :: "64 word"

record packer =
  canceled_bin :: packer_bin
  bin_data_size :: "64 word"
  statistics :: packer_statistics

definition add_to_bin :: "packer_bin \<Rightarrow> packer_data_vio \<Rightarrow> packer_bin" where
  "add_to_bin bin dv =
     bin\<lparr>incoming := incoming bin
            @ [dv\<lparr>compression_slot := word_of_nat (length (incoming bin))\<rparr>]\<rparr>"

text \<open>
  \<^verbatim>\<open>remove_from_bin\<close>: take data_vios off the end of the bin until one may still be
  written compressed; the others go to the canceled bin. When the bin runs empty its
  free space is reset and \<open>NULL\<close> is returned.
\<close>

function remove_from_bin ::
    "packer \<Rightarrow> packer_bin \<Rightarrow> packer_data_vio option \<times> packer \<times> packer_bin" where
  "remove_from_bin p bin =
     (if length (incoming bin) > 0 then
        let dv = last (incoming bin);
            bin' = bin\<lparr>incoming := butlast (incoming bin)\<rparr>
        in if may_write_compressed dv then (Some dv, p, bin')
           else remove_from_bin (p\<lparr>canceled_bin := add_to_bin (canceled_bin p) dv\<rparr>) bin'
      else (None, p, bin\<lparr>free_space := bin_data_size p\<rparr>))"
  by pat_completeness auto
termination
  by (relation "measure (\<lambda>(p, bin). length (incoming bin))") auto

declare remove_from_bin.simps [simp del]

lemma remove_from_bin_shrinks:
  "remove_from_bin p bin = (Some dv, p', bin') \<Longrightarrow> length (incoming bin') < length (incoming bin)"
proof (induction p bin rule: remove_from_bin.induct)
  case (1 p bin)
  show ?case
  proof (cases "length (incoming bin) > 0")
    case False
    with "1.prems" show ?thesis
      by (subst (asm) remove_from_bin.simps) simp
  next
    case True
    show ?thesis
    proof (cases "may_write_compressed (last (incoming bin))")
      case True
      with \<open>length (incoming bin) > 0\<close> "1.prems"
      have "bin' = bin\<lparr>incoming := butlast (incoming bin)\<rparr>"
        by (subst (asm) remove_from_bin.simps) (simp add: Let_def)
      with \<open>length (incoming bin) > 0\<close> show ?thesis by simp
    next
      case False
      with \<open>length (incoming bin) > 0\<close> "1.prems"
      have "remove_from_bin
              (p\<lparr>canceled_bin := add_to_bin (canceled_bin p) (last (incoming bin))\<rparr>)
              (bin\<lparr>incoming := butlast (incoming bin)\<rparr>) = (Some dv, p', bin')"
        by (subst (asm) remove_from_bin.simps) (simp add: Let_def)
      from "1.IH" [OF True refl refl False this] show ?thesis by simp
    qed
  qed
qed

text \<open>
  The compressed block being assembled in the agent's scratch block: whether its header
  has been initialized (version 1.0), the fragment size recorded for each slot, and where
  each packed fragment was copied (slot, offset, data_vio).
\<close>

record compressed_block =
  initialized :: bool
  sizes :: "nat \<Rightarrow> 16 word"
  copied :: "(nat \<times> 16 word \<times> nat) list"

definition vdo_initialize_compressed_block :: "compressed_block \<Rightarrow> 16 word \<Rightarrow> compressed_block" where
  "vdo_initialize_compressed_block block sz =
     block\<lparr>initialized := True, sizes := (sizes block)(0 := sz)\<rparr>"

definition vdo_put_compressed_block_fragment ::
    "compressed_block \<Rightarrow> nat \<Rightarrow> 16 word \<Rightarrow> packer_data_vio \<Rightarrow> compressed_block" where
  "vdo_put_compressed_block_fragment block fragment offset dv =
     block\<lparr>sizes := (sizes block)(fragment := compression_size dv),
           copied := copied block @ [(fragment, offset, vio_id dv)]\<rparr>"

text \<open>
  The state of \<^verbatim>\<open>write_bin\<close> while it packs: the packer, the bin, the block, the
  running offset, the next slot, and the agent's batch, the chain that starts at the
  agent's \<open>next_in_batch\<close> (the client packed last comes first).
\<close>

record packing =
  pk_packer :: packer
  pk_bin :: packer_bin
  pk_block :: compressed_block
  pk_offset :: "16 word"
  pk_slot :: nat
  pk_batch :: "packer_data_vio list"

definition pack_fragment :: "packing \<Rightarrow> packer_data_vio \<Rightarrow> packing" where
  "pack_fragment st client =
     (let to_pack = client\<lparr>compression_slot := word_of_nat (pk_slot st)\<rparr>
      in st\<lparr>pk_batch := to_pack # pk_batch st,
            pk_block := vdo_put_compressed_block_fragment (pk_block st) (pk_slot st)
                          (pk_offset st) to_pack,
            pk_offset := pk_offset st + compression_size to_pack,
            pk_slot := Suc (pk_slot st)\<rparr>)"

text \<open>
  The loop \<^verbatim>\<open>while ((client = remove_from_bin(packer, bin)) != NULL) offset =
  pack_fragment(..., slot++, block);\<close>
\<close>

function pack_clients :: "packing \<Rightarrow> packing" where
  "pack_clients st =
     (case remove_from_bin (pk_packer st) (pk_bin st) of
        (None, p, bin) \<Rightarrow> st\<lparr>pk_packer := p, pk_bin := bin\<rparr>
      | (Some client, p, bin) \<Rightarrow>
          pack_clients (pack_fragment (st\<lparr>pk_packer := p, pk_bin := bin\<rparr>) client))"
  by pat_completeness auto
termination
  by (relation "measure (\<lambda>st. length (incoming (pk_bin st)))")
     (auto simp: pack_fragment_def Let_def dest: remove_from_bin_shrinks [OF sym])

declare pack_clients.simps [simp del]

text \<open>
  \<^verbatim>\<open>write_bin\<close> ends by returning at once (no agent), in \<^verbatim>\<open>abort_packing(agent)\<close>,
  in \<^verbatim>\<open>continue_data_vio(agent, result)\<close> or in \<^verbatim>\<open>submit_data_vio_io(agent)\<close>, the
  compressed write. Whether the VDO is read-only and what
  \<^verbatim>\<open>prepare_data_vio_for_io\<close> returns are inputs.
\<close>

datatype write_bin_outcome =
    no_agent
  | abort_packing packer_data_vio
  | continue_data_vio packer_data_vio status
  | submit_data_vio_io packer_data_vio

definition write_bin ::
    "bool \<Rightarrow> status \<Rightarrow> compressed_block \<Rightarrow> packer \<Rightarrow> packer_bin
       \<Rightarrow> write_bin_outcome \<times> packing" where
  "write_bin read_only prepare_result scratch_block p bin =
     (case remove_from_bin p bin of
        (None, p1, bin1) \<Rightarrow>
          (no_agent,
           \<lparr>pk_packer = p1, pk_bin = bin1, pk_block = scratch_block, pk_offset = 0,
            pk_slot = 1, pk_batch = []\<rparr>)
      | (Some agent0, p1, bin1) \<Rightarrow>
          let agent = agent0\<lparr>compression_slot := 0\<rparr>;
              block = vdo_initialize_compressed_block scratch_block (compression_size agent);
              st = pack_clients
                     \<lparr>pk_packer = p1, pk_bin = bin1, pk_block = block,
                      pk_offset = compression_size agent, pk_slot = 1, pk_batch = []\<rparr>
          in if pk_slot st = 1 then (abort_packing agent, st)
             else if read_only then (continue_data_vio agent VDO_READ_ONLY, st)
             else if prepare_result \<noteq> VDO_SUCCESS
               then (continue_data_vio agent prepare_result, st)
             else
               let stats = statistics (pk_packer st);
                   stats' = stats
                     \<lparr>compressed_fragments_in_packer :=
                        compressed_fragments_in_packer stats - word_of_nat (pk_slot st),
                      compressed_fragments_written :=
                        compressed_fragments_written stats + word_of_nat (pk_slot st),
                      compressed_blocks_written := compressed_blocks_written stats + 1\<rparr>
               in (submit_data_vio_io agent,
                   st\<lparr>pk_packer := (pk_packer st)\<lparr>statistics := stats'\<rparr>\<rparr>))"

text \<open>
  The batch of a bin: the data_vios \<open>write_bin\<close> takes out of it to write together, those
  that may still be written compressed, in the order they are taken (from the end).
\<close>

definition batch_of :: "packer_bin \<Rightarrow> packer_data_vio list" where
  "batch_of bin = filter may_write_compressed (rev (incoming bin))"

section \<open>Example inputs for the packer\<close>

text \<open>
  Three data_vios: 1 and 2 may be written compressed, 3 has been canceled. A packer with
  an empty canceled bin and an untouched scratch block.
\<close>

definition example_vio :: "nat \<Rightarrow> packer_data_vio" where
  "example_vio i =
     \<lparr>vio_id = i, compression_size = 100 * word_of_nat i, compression_slot = 0,
      may_write_compressed = (i \<noteq> 3)\<rparr>"

definition example_bin :: "nat list \<Rightarrow> packer_bin" where
  "example_bin ids = \<lparr>incoming = map example_vio ids, free_space = 0\<rparr>"

definition example_packer :: packer where
  "example_packer =
     \<lparr>canceled_bin = \<lparr>incoming = [], free_space = 4000\<rparr>, bin_data_size = 4000,
      statistics = \<lparr>compressed_fragments_written = 0, compressed_blocks_written = 0,
                    compressed_fragments_in_packer = 3\<rparr>\<rparr>"

definition example_scratch_block :: compressed_block where
  "example_scratch_block = \<lparr>initialized = False, sizes = (\<lambda>i. 0), copied = []\<rparr>"

section \<open>Volume chapter boundaries (uds/volume.c)\<close>

text \<open>
  Chapter numbers, counts and spans are \<open>unsigned int\<close>: natural numbers below \<open>2^32\<close>,
  with the wrap-around written out wherever a sum or product could exceed that. Virtual
  chapter numbers are 64-bit words. A probe function takes a chapter number and returns a
  status and the value it stores in \<open>*vcn\<close> (read by the callers only on success).
\<close>

definition MAX_BAD_CHAPTERS :: nat where
  "MAX_BAD_CHAPTERS = 100"

definition UINT64_MAX :: "64 word" where
  "UINT64_MAX = - 1"

type_synonym probe_func = "nat \<Rightarrow> status \<times> 64 word"

text \<open>
  \<^verbatim>\<open>probeWrapper\<close>: a chapter that \<^verbatim>\<open>probeChapter\<close> finds corrupt is reported as a
  successful probe of the sentinel \<open>UINT64_MAX\<close>. \<^verbatim>\<open>probeChapter\<close> itself reads the
  chapter's index pages through functions that are not among the sources; it is a
  parameter.
\<close>

definition probeWrapper :: "probe_func \<Rightarrow> probe_func" where
  "probeWrapper probeChapter chapterNumber =
     (case probeChapter chapterNumber of
        (result, vcn) \<Rightarrow>
          if result = UDS_CORRUPT_COMPONENT \<or> result = UDS_CORRUPT_DATA
          then (UDS_SUCCESS, UINT64_MAX)
          else (result, vcn))"

text \<open>
  The loop of \<^verbatim>\<open>findRealEndOfVolume\<close>. It may fail to terminate only from states the
  function never reaches (a span of 0); the model makes no such assumption and returns
  an option, \<open>None\<close> standing for a loop that runs forever.
\<close>

partial_function (option) find_end_loop ::
    "probe_func \<Rightarrow> nat \<Rightarrow> nat \<Rightarrow> nat \<Rightarrow> (status + nat) option" where
  "find_end_loop probeChapter limit span tries =
     (if limit > 0 then
        let chapter = (if span > limit then 0 else limit - span) in
        case probeChapter chapter of
          (result, vcn) \<Rightarrow>
            if result = UDS_SUCCESS then
              (if span = 1 then Some (Inr limit)
               else find_end_loop probeChapter limit (span div 2) 0)
            else if result = UDS_CORRUPT_COMPONENT then
              (let tries' = (tries + 1) mod 2 ^ 32
               in find_end_loop probeChapter chapter
                    (if tries' > 1 then (span * 2) mod 2 ^ 32 else span) tries')
            else Some (Inl result)
      else Some (Inr limit))"

declare find_end_loop.simps [code]

definition findRealEndOfVolume :: "probe_func \<Rightarrow> nat \<Rightarrow> (status + nat) option" where
  "findRealEndOfVolume probeChapter limit = find_end_loop probeChapter limit 1 0"

text \<open>
  The binary search of \<^verbatim>\<open>findVolumeChapterBoundariesImpl\<close>. The midpoint is computed
  as \<open>(leftChapter + rightChapter) / 2\<close> in \<open>unsigned int\<close>; when the sum wraps, the loop
  need not terminate, so this is an option-valued function as well. The result is the
  status of a failed probe or the final \<open>(leftChapter, rightChapter)\<close>.
\<close>

partial_function (option) search_discontinuity ::
    "probe_func \<Rightarrow> 64 word \<Rightarrow> nat \<Rightarrow> nat \<Rightarrow> (status + nat \<times> nat) option" where
  "search_discontinuity probeFunc firstVCN leftChapter rightChapter =
     (if leftChapter < rightChapter then
        let chapter = ((leftChapter + rightChapter) mod 2 ^ 32) div 2 in
        case probeFunc chapter of
          (result, probeVCN) \<Rightarrow>
            if result \<noteq> UDS_SUCCESS then Some (Inl result)
            else if firstVCN \<le> probeVCN
              then search_discontinuity probeFunc firstVCN ((chapter + 1) mod 2 ^ 32)
                     rightChapter
            else search_discontinuity probeFunc firstVCN leftChapter chapter
      else Some (Inr (leftChapter, rightChapter)))"

declare search_discontinuity.simps [code]

text \<open>
  The backward scan \<^verbatim>\<open>for (;;)\<close> over bad chapters. \<open>badChapters\<close> is below
  \<open>maxBadChapters\<close> whenever it is incremented, so the increment cannot wrap. The result
  is the status and, on success, the value found for \<open>highest\<close>.
\<close>

function scan_backwards ::
    "probe_func \<Rightarrow> nat \<Rightarrow> nat \<Rightarrow> nat \<Rightarrow> nat \<Rightarrow> status \<times> 64 word option" where
  "scan_backwards probeFunc chapterLimit maxBadChapters rightChapter badChapters =
     (let rightChapter' = ((rightChapter + chapterLimit - 1) mod 2 ^ 32) mod chapterLimit in
      case probeFunc rightChapter' of
        (result, highest) \<Rightarrow>
          if result \<noteq> UDS_SUCCESS then (result, None)
          else if highest \<noteq> UINT64_MAX then (UDS_SUCCESS, Some highest)
          else if Suc badChapters \<ge> maxBadChapters then (UDS_CORRUPT_COMPONENT, None)
          else scan_backwards probeFunc chapterLimit maxBadChapters rightChapter'
                 (Suc badChapters))"
  by pat_completeness auto
termination
  by (relation "measure (\<lambda>(probeFunc, chapterLimit, maxBadChapters, rightChapter, badChapters).
                            maxBadChapters - badChapters)") auto

declare scan_backwards.simps [simp del]

text \<open>
  \<^verbatim>\<open>findVolumeChapterBoundariesImpl\<close>. The result is the status and, when the function
  stored them, \<open>(*lowestVCN, *highestVCN)\<close>. \<^verbatim>\<open>ASSERT\<close> (\<^verbatim>\<open>permassert.h\<close>, not among
  the sources) yields \<open>UDS_ASSERTION_FAILED\<close> when its condition is false.
\<close>

definition findVolumeChapterBoundariesImpl ::
    "nat \<Rightarrow> nat \<Rightarrow> probe_func \<Rightarrow> (status \<times> (64 word \<times> 64 word) option) option" where
  "findVolumeChapterBoundariesImpl chapterLimit maxBadChapters probeFunc =
     (if chapterLimit = 0 then Some (UDS_SUCCESS, Some (0, 0))
      else
        case probeFunc 0 of
          (result0, firstVCN) \<Rightarrow>
            if result0 \<noteq> UDS_SUCCESS then Some (UDS_SUCCESS, None)
            else
              case search_discontinuity probeFunc firstVCN 0 chapterLimit of
                None \<Rightarrow> None
              | Some (Inl result) \<Rightarrow> Some (result, None)
              | Some (Inr (leftChapter, rightChapter)) \<Rightarrow>
                  if leftChapter \<noteq> rightChapter then Some (UDS_ASSERTION_FAILED, None)
                  else
                    case probeFunc (leftChapter mod chapterLimit) of
                      (result, lowest) \<Rightarrow>
                        if result \<noteq> UDS_SUCCESS then Some (result, None)
                        else if lowest = UINT64_MAX then Some (UDS_ASSERTION_FAILED, None)
                        else
                          case scan_backwards probeFunc chapterLimit maxBadChapters
                                 rightChapter 0 of
                            (result, None) \<Rightarrow> Some (result, None)
                          | (result, Some highest) \<Rightarrow>
                              Some (UDS_SUCCESS, Some (lowest, highest)))"

text \<open>
  \<^verbatim>\<open>findVolumeChapterBoundaries\<close>: what it returns and what it has stored through its
  three pointers when it returns (\<open>None\<close>: not written).
\<close>

record chapter_boundaries =
  returned :: status
  lowestVCN :: "64 word option"
  highestVCN :: "64 word option"
  isEmpty :: "bool option"

definition findVolumeChapterBoundaries ::
    "probe_func \<Rightarrow> nat \<Rightarrow> chapter_boundaries option" where
  "findVolumeChapterBoundaries probeChapter chapters_per_volume =
     (case findRealEndOfVolume probeChapter chapters_per_volume of
        None \<Rightarrow> None
      | Some (Inl err) \<Rightarrow>
          Some \<lparr>returned = err, lowestVCN = None, highestVCN = None, isEmpty = None\<rparr>
      | Some (Inr chapterLimit) \<Rightarrow>
          if chapterLimit = 0
          then Some \<lparr>returned = UDS_SUCCESS, lowestVCN = Some 0, highestVCN = Some 0,
                     isEmpty = Some True\<rparr>
          else
            case findVolumeChapterBoundariesImpl chapterLimit MAX_BAD_CHAPTERS
                   (probeWrapper probeChapter) of
              None \<Rightarrow> None
            | Some (res, written) \<Rightarrow>
                Some \<lparr>returned = res, lowestVCN = map_option fst written,
                      highestVCN = map_option snd written, isEmpty = Some False\<rparr>)"

section \<open>Chapter sequences for the boundary search\<close>

text \<open>
  A volume as the boundary search sees it through \<^verbatim>\<open>probeWrapper\<close>: every probe
  succeeds and yields the chapter's virtual chapter number, or the sentinel
  \<open>UINT64_MAX\<close> for a bad chapter.
\<close>

definition probe_of :: "(nat \<Rightarrow> 64 word) \<Rightarrow> probe_func" where
  "probe_of vcn chapter = (UDS_SUCCESS, vcn chapter)"

definition vcn_of_list :: "64 word list \<Rightarrow> nat \<Rightarrow> 64 word" where
  "vcn_of_list xs chapter = (if chapter < length xs then xs ! chapter else UINT64_MAX)"

text \<open>The virtual chapter numbers of the good chapters among chapters \<open>0 .. n - 1\<close>.\<close>

definition good_vcns :: "(nat \<Rightarrow> 64 word) \<Rightarrow> nat \<Rightarrow> 64 word set" where
  "good_vcns vcn n = {v \<in> vcn ` {0..<n}. v \<noteq> UINT64_MAX}"

text \<open>
  The layout the search is written for (the comment in the source: at most one run of
  bad chapters, with the highest and lowest virtual chapter numbers adjacent to it).
  Chapters \<open>0 .. a - 1\<close> are good and increasing: the newest part of the circular
  sequence. Chapters \<open>a .. k - 1\<close> are the bad run. Chapters \<open>k .. n - 1\<close> are good and
  increasing, and older than chapter 0: the oldest part. Either part may be empty, but
  not both, and a volume that starts with the bad run (\<open>a = 0\<close>) has a non-empty bad run
  and ends with a good chapter.
\<close>

definition increasing_good :: "(nat \<Rightarrow> 64 word) \<Rightarrow> nat \<Rightarrow> nat \<Rightarrow> bool" where
  "increasing_good vcn lo hi \<longleftrightarrow>
     (\<forall>c\<in>{lo..<hi}. vcn c \<noteq> UINT64_MAX \<and> (\<forall>d\<in>{lo..<c}. vcn d < vcn c))"

definition all_bad :: "(nat \<Rightarrow> 64 word) \<Rightarrow> nat \<Rightarrow> nat \<Rightarrow> bool" where
  "all_bad vcn lo hi \<longleftrightarrow> (\<forall>c\<in>{lo..<hi}. vcn c = UINT64_MAX)"

definition chapter_layout :: "(nat \<Rightarrow> 64 word) \<Rightarrow> nat \<Rightarrow> nat \<Rightarrow> nat \<Rightarrow> bool" where
  "chapter_layout vcn n a k \<longleftrightarrow>
     a \<le> k \<and> k \<le> n \<and> (0 < a \<or> (0 < k \<and> k < n))
     \<and> increasing_good vcn 0 a \<and> all_bad vcn a k \<and> increasing_good vcn k n
     \<and> (0 < a \<and> k < n \<longrightarrow> vcn (n - 1) < vcn 0)"

text \<open>
  The sequences claim C1 speaks of, in the spec's words: a circular sequence of
  monotonically increasing values (read from some chapter on, around the end of the
  volume, the good values increase) with at most one run of at most \<open>max_bad\<close>
  contiguous sentinels (starting at some chapter, again circularly). This definition
  follows the spec, not the source, and says nothing about where the run lies.
\<close>

definition rotation :: "(nat \<Rightarrow> 64 word) \<Rightarrow> nat \<Rightarrow> nat \<Rightarrow> 64 word list" where
  "rotation vcn n start = map (\<lambda>i. vcn ((start + i) mod n)) [0..<n]"

definition circular_increasing_with_bad_run ::
    "(nat \<Rightarrow> 64 word) \<Rightarrow> nat \<Rightarrow> nat \<Rightarrow> bool" where
  "circular_increasing_with_bad_run vcn n max_bad \<longleftrightarrow>
     (\<exists>start\<in>{0..<n}.
        sorted_wrt (<) (filter (\<lambda>v. v \<noteq> UINT64_MAX) (rotation vcn n start)))
     \<and> (\<exists>run_start\<in>{0..<n}. \<exists>len\<in>{0..max_bad}.
          len \<le> n
          \<and> (\<forall>i\<in>{0..<n}. (rotation vcn n run_start ! i = UINT64_MAX) = (i < len)))"

section \<open>Example chapter sequences\<close>

text \<open>
  Two volumes of seven chapters. In the first the circular sequence 4, (bad), 6, 7, 8,
  9, 10 starts at chapter 4, and its single bad chapter lies inside the oldest part, not
  at the discontinuity between chapters 3 and 4. In the second the sequence 7, 8, 9, 10,
  11 starts at chapter 4 and the two bad chapters sit at the discontinuity.
\<close>

definition example_bad_chapter_inside :: "nat \<Rightarrow> 64 word" where
  "example_bad_chapter_inside = vcn_of_list [7, 8, 9, 10, 4, UINT64_MAX, 6]"

definition example_bad_run_at_discontinuity :: "nat \<Rightarrow> 64 word" where
  "example_bad_run_at_discontinuity =
     vcn_of_list [10, 11, UINT64_MAX, UINT64_MAX, 7, 8, 9]"

chapter \<open>Properties\<close>

section \<open>Recovery journal check byte\<close>

lemma low_seven_bits_unat: "unat ((x :: 64 word) AND 0x7F) = unat x mod 128"
proof -
  have "x AND 0x7F = take_bit 7 x"
    by (simp add: take_bit_eq_mask mask_eq_exp_minus_1)
  then show ?thesis
    by (simp add: take_bit_eq_mod unat_mod)
qed

lemma or_high_bit_is_add: "((x :: 64 word) AND 0x7F) OR 0x80 = (x AND 0x7F) + 0x80"
proof -
  have "(x AND 0x7F) AND 0x80 = 0"
    by (simp add: and.assoc)
  then show ?thesis by (simp add: disjunctive_add_eq_or)
qed

lemma check_byte_unat:
  "unat (compute_vdo_recovery_journal_check_byte j s) =
     (unat s div unat (journal_size j)) mod 128 + 128"
proof -
  let ?q = "s div journal_size j"
  have a: "unat ((?q AND 0x7F) + 0x80) = unat ?q mod 128 + 128"
    using low_seven_bits_unat[of ?q] by (simp add: unat_word_ariths)
  have "unat (ucast ((?q AND 0x7F) + 0x80 :: 64 word) :: 8 word) = unat ((?q AND 0x7F) + 0x80)"
    using a by (simp add: unsigned_ucast_eq take_bit_eq_mod)
  then show ?thesis
    unfolding compute_vdo_recovery_journal_check_byte_def or_high_bit_is_add
    using a by (simp add: unat_div)
qed

lemma check_byte_nat_bits:
  "unat (compute_vdo_recovery_journal_check_byte j s) =
     ((unat s div unat (journal_size j)) AND 0x7F) OR 0x80"
proof -
  let ?q = "unat s div unat (journal_size j)"
  have "?q AND 0x7F = take_bit 7 ?q"
    by (simp add: take_bit_eq_mask mask_eq_exp_minus_1)
  then have l: "?q AND 0x7F = ?q mod 128"
    by (simp add: take_bit_eq_mod)
  have "(?q AND 0x7F) AND (0x80::nat) = 0" by (simp add: and.assoc)
  then have "(?q AND 0x7F) OR 0x80 = (?q AND 0x7F) + 0x80"
    by (simp add: disjunctive_add_eq_or)
  then show ?thesis by (simp add: check_byte_unat l)
qed

lemma check_byte_high_bit: "bit (compute_vdo_recovery_journal_check_byte j s) 7"
  unfolding compute_vdo_recovery_journal_check_byte_def
  by (simp add: bit_simps)

lemma check_byte_step:
  assumes "journal_size j \<noteq> 0" "s \<noteq> - 1"
  shows "compute_vdo_recovery_journal_check_byte j (s + 1)
           \<noteq> compute_vdo_recovery_journal_check_byte j s
     \<longleftrightarrow> (s + 1) mod journal_size j = 0"
proof -
  let ?n = "unat (journal_size j)"
  let ?cb = "compute_vdo_recovery_journal_check_byte j"
  have n: "0 < ?n" using assms(1) by (simp add: unat_gt_0)
  have "1 + s \<noteq> 0" using assms(2)
    by (metis add.commute add_eq_0_iff)
  then have s1: "unat (s + 1) = Suc (unat s)"
    using unatSuc[of s] by (simp add: add.commute)
  have "?cb (s + 1) \<noteq> ?cb s \<longleftrightarrow> unat (?cb (s + 1)) \<noteq> unat (?cb s)"
    by (simp add: word_unat_eq_iff)
  also have "\<dots> \<longleftrightarrow> (Suc (unat s) div ?n) mod 128 \<noteq> (unat s div ?n) mod 128"
    by (simp add: check_byte_unat s1)
  also have "\<dots> \<longleftrightarrow> Suc (unat s) mod ?n = 0"
    by (auto simp: div_Suc mod_Suc)
  also have "\<dots> \<longleftrightarrow> unat ((s + 1) mod journal_size j) = 0"
    by (simp add: unat_mod s1)
  also have "\<dots> \<longleftrightarrow> (s + 1) mod journal_size j = 0"
    by (simp add: unat_eq_0)
  finally show ?thesis .
qed

text \<open>
  Claim C5. For every journal of non-zero size and every sequence number, the check byte
  is \<open>((seq / journal_size) & 0x7F) | 0x80\<close> (read as a number: the narrowing to eight
  bits loses nothing), its high bit is set, and it differs between \<open>seq\<close> and \<open>seq + 1\<close>
  exactly when \<open>seq + 1\<close> is a multiple of the journal size, that is, on each new trip
  around the journal. (\<open>seq + 1\<close> is taken without 64-bit wrap-around.)
\<close>

theorem check_byte_changes_each_trip:
  assumes "journal_size j \<noteq> 0"
  shows "unat (compute_vdo_recovery_journal_check_byte j s)
           = ((unat s div unat (journal_size j)) AND 0x7F) OR 0x80
       \<and> bit (compute_vdo_recovery_journal_check_byte j s) 7
       \<and> (s \<noteq> - 1 \<longrightarrow>
            (compute_vdo_recovery_journal_check_byte j (s + 1)
               \<noteq> compute_vdo_recovery_journal_check_byte j s
             \<longleftrightarrow> (s + 1) mod journal_size j = 0))"
  using check_byte_nat_bits [of j s] check_byte_high_bit [of j s] check_byte_step [OF assms, of s]
  by (intro conjI impI)

theorem check_byte_changes_each_trip_witness:
  "journal_size \<lparr>journal_size = 8\<rparr> \<noteq> 0
   \<and> (15 :: 64 word) \<noteq> - 1
   \<and> compute_vdo_recovery_journal_check_byte \<lparr>journal_size = 8\<rparr> 15 = 0x81
   \<and> compute_vdo_recovery_journal_check_byte \<lparr>journal_size = 8\<rparr> (15 + 1) = 0x82
   \<and> ((15 :: 64 word) + 1) mod 8 = 0"
  using check_byte_changes_each_trip [of "\<lparr>journal_size = 8\<rparr>" 15]
  by (simp add: compute_vdo_recovery_journal_check_byte_def)

section \<open>Block map slot lookup\<close>

text \<open>
  Claim C7. A data_vio whose logical block number is at or beyond the block map's entry
  count is finished with \<open>VDO_OUT_OF_RANGE\<close> and no lookup is started (the outcome is the
  call of \<open>finish_data_vio\<close>, on the unchanged data_vio); for every smaller logical block
  number the outcome is the call of \<open>vdo_lookup_block_map_pbn\<close>, with the slot, callback
  and thread recorded in the tree lock.
\<close>

theorem find_block_map_slot_range_check:
  "(lbn dv \<ge> entry_count bmap \<longrightarrow>
      vdo_find_block_map_slot epp bmap dv cb tid = finish_data_vio dv VDO_OUT_OF_RANGE)
   \<and> (lbn dv < entry_count bmap \<longrightarrow>
      (\<exists>dv'. vdo_find_block_map_slot epp bmap dv cb tid = vdo_lookup_block_map_pbn dv'
         \<and> lbn dv' = lbn dv
         \<and> slot (tree_lock dv') = vdo_compute_slot epp (lbn dv)
         \<and> callback (tree_lock dv') = Some cb
         \<and> thread_id (tree_lock dv') = tid))"
  by (auto simp: vdo_find_block_map_slot_def)

theorem find_block_map_slot_range_check_witness:
  "vdo_find_block_map_slot 812 \<lparr>root_count = 60, zone_count = 3, entry_count = 1000\<rparr>
      \<lparr>lbn = 1000, tree_lock = \<lparr>root_index = 0, page_index = 0, slot = 0,
                                 callback = None, thread_id = 0\<rparr>\<rparr> () 5
     = finish_data_vio
         \<lparr>lbn = 1000, tree_lock = \<lparr>root_index = 0, page_index = 0, slot = 0,
                                    callback = None, thread_id = 0\<rparr>\<rparr> VDO_OUT_OF_RANGE
   \<and> vdo_find_block_map_slot 812 \<lparr>root_count = 60, zone_count = 3, entry_count = 1000\<rparr>
      \<lparr>lbn = 999, tree_lock = \<lparr>root_index = 0, page_index = 0, slot = 0,
                                callback = None, thread_id = 0\<rparr>\<rparr> () 5
     = vdo_lookup_block_map_pbn
         \<lparr>lbn = 999, tree_lock = \<lparr>root_index = 0, page_index = 0, slot = 187,
                                   callback = Some (), thread_id = 5\<rparr>\<rparr>"
  using find_block_map_slot_range_check
     [where dv = "\<lparr>lbn = 1000, tree_lock = \<lparr>root_index = 0, page_index = 0, slot = 0,
                                       callback = None, thread_id = 0\<rparr>\<rparr>"
        and bmap = "\<lparr>root_count = 60, zone_count = 3, entry_count = 1000\<rparr>"
        and epp = 812 and cb = "()" and tid = 5]
    find_block_map_slot_range_check
     [where dv = "\<lparr>lbn = 999, tree_lock = \<lparr>root_index = 0, page_index = 0, slot = 0,
                                      callback = None, thread_id = 0\<rparr>\<rparr>"
        and bmap = "\<lparr>root_count = 60, zone_count = 3, entry_count = 1000\<rparr>"
        and epp = 812 and cb = "()" and tid = 5]
  by (simp add: vdo_find_block_map_slot_def vdo_compute_slot_def)

lemma page_number_unat:
  assumes "unat l div unat epp < 2 ^ 32"
  shows "unat (vdo_compute_page_number epp l) = unat l div unat epp"
  using assms unfolding vdo_compute_page_number_def
  by (simp add: unsigned_ucast_eq take_bit_eq_mod unat_div)

lemma root_index_unat:
  fixes p :: "32 word" and rc :: "8 word"
  assumes "rc \<noteq> 0"
  shows "unat (ucast (p mod ucast rc) :: 8 word) = unat p mod unat rc"
proof -
  have rc: "0 < unat rc" using assms by (simp add: unat_gt_0)
  have lt: "unat rc < 256" using unsigned_less[of rc, where ?'a=nat] by simp
  then have u: "unat (ucast rc :: 32 word) = unat rc"
    by (simp add: unsigned_ucast_eq take_bit_eq_mod)
  have m: "unat (p mod ucast rc) = unat p mod unat rc"
    by (simp only: unat_mod u)
  have "unat p mod unat rc < unat rc" using rc by simp
  then have "unat p mod unat rc < 256" using lt by simp
  then show ?thesis
    by (simp add: unsigned_ucast_eq[where w = "p mod ucast rc"] take_bit_eq_mod m)
qed

text \<open>
  Claim C8, as stated, takes the page number to be \<open>lbn / entries_per_page\<close> for every
  data_vio. The code keeps the page number in a 32-bit \<open>page_number_t\<close>, so for a logical
  block number of \<open>812 * 2^32\<close> (with 812 entries per page and 60 roots) the stored page
  number and root index are 0, while \<open>(lbn / 812) % 60\<close> is 16.
\<close>

theorem compute_logical_zone_truncates_page_number:
  "vdo_compute_logical_zone 812 \<lparr>root_count = 60, zone_count = 3, entry_count = 0\<rparr>
      \<lparr>lbn = 3487513444352, tree_lock = \<lparr>root_index = 7, page_index = 7, slot = 0,
                                 callback = None :: unit option, thread_id = 0\<rparr>\<rparr>
   = Some (0, \<lparr>lbn = 3487513444352, tree_lock = \<lparr>root_index = 0, page_index = 0, slot = 0,
                                 callback = None, thread_id = 0\<rparr>\<rparr>)
  \<and> (3487513444352 div 812) mod 60 = (16 :: nat)"
  by (simp add: vdo_compute_logical_zone_def vdo_compute_page_number_def)

text \<open>
  Claim C8, amended. For every data_vio whose page number \<open>lbn / entries_per_page\<close> fits
  the 32-bit page number type (and a block map with at least one root and one zone),
  \<open>vdo_compute_logical_zone\<close> stores that page number in the tree lock, sets
  \<open>root_index\<close> to \<open>page_number % root_count\<close> and returns \<open>root_index % zone_count\<close>.
\<close>

theorem compute_logical_zone_striping:
  assumes "root_count bmap \<noteq> 0" and "zone_count bmap \<noteq> 0"
      and "unat (lbn dv) div unat epp < 2 ^ 32"
  shows "\<exists>zone dv'. vdo_compute_logical_zone epp bmap dv = Some (zone, dv')
     \<and> unat (page_index (tree_lock dv')) = unat (lbn dv) div unat epp
     \<and> unat (root_index (tree_lock dv'))
          = (unat (lbn dv) div unat epp) mod unat (root_count bmap)
     \<and> unat zone = unat (root_index (tree_lock dv')) mod unat (zone_count bmap)
     \<and> lbn dv' = lbn dv"
  using assms
  by (simp add: vdo_compute_logical_zone_def Let_def root_index_unat page_number_unat unat_mod)

theorem compute_logical_zone_striping_witness:
  "root_count \<lparr>root_count = 60, zone_count = 3, entry_count = 5000\<rparr> \<noteq> 0
   \<and> zone_count \<lparr>root_count = 60, zone_count = 3, entry_count = 5000\<rparr> \<noteq> 0
   \<and> unat (4000 :: 64 word) div unat (812 :: 64 word) < 2 ^ 32
   \<and> vdo_compute_logical_zone 812 \<lparr>root_count = 60, zone_count = 3, entry_count = 5000\<rparr>
        \<lparr>lbn = 4000, tree_lock = \<lparr>root_index = 0, page_index = 0, slot = 0,
                                   callback = None :: unit option, thread_id = 0\<rparr>\<rparr>
      = Some (1, \<lparr>lbn = 4000, tree_lock = \<lparr>root_index = 4, page_index = 4, slot = 0,
                                   callback = None, thread_id = 0\<rparr>\<rparr>)"
  using compute_logical_zone_striping
     [where bmap = "\<lparr>root_count = 60, zone_count = 3, entry_count = 5000\<rparr>"
        and epp = 812
        and dv = "\<lparr>lbn = 4000, tree_lock = \<lparr>root_index = 0, page_index = 0, slot = 0,
                                   callback = None :: unit option, thread_id = 0\<rparr>\<rparr>"]
  by (simp add: vdo_compute_logical_zone_def vdo_compute_page_number_def)

section \<open>Compressed block fragments\<close>

text \<open>
  Claim C9 at a block the code accepts although the claim calls it invalid. The header
  has version 1.0, \<open>sizes[0] = 0xFFFF\<close> and \<open>sizes[1] = 10\<close>; the mapping state selects
  slot 1 and the block size is 4096. The running offset, header size plus the size of
  slot 0, is \<open>36 + 65535 = 65571\<close>, beyond the block size, so the claim asks for
  \<open>VDO_INVALID_FRAGMENT\<close>. The 16-bit \<open>offset\<close> wraps to 35, passes both bounds checks,
  and the function returns \<open>VDO_SUCCESS\<close> with a fragment offset of 35, inside the header.
\<close>

theorem compressed_fragment_offset_wraps:
  "vdo_get_compressed_block_fragment 3
      (buffer_of [1, 0, 0, 0,  0, 0, 0, 0,  0xFF, 0xFF,  10, 0]) 4096
     = (VDO_SUCCESS, Some (35, 10))
   \<and> COMPRESSED_BLOCK_1_0_SIZE
       + unat (get_compressed_fragment_size
                 (buffer_of [1, 0, 0, 0,  0, 0, 0, 0,  0xFF, 0xFF,  10, 0]) 0)
     = 65571"
  by (simp add: vdo_get_compressed_block_fragment_def vdo_is_state_compressed_def
      VDO_MAPPING_STATE_UNCOMPRESSED_def vdo_are_same_version_def
      vdo_unpack_version_number_def COMPRESSED_BLOCK_1_0_def le32_to_cpu_def
      le16_to_cpu_def buffer_of_def vdo_get_slot_from_state_def
      VDO_MAPPING_STATE_COMPRESSED_BASE_def VDO_MAX_COMPRESSION_SLOTS_def
      VDO_MAPPING_STATE_COMPRESSED_MAX_def get_compressed_fragment_size_def
      COMPRESSED_BLOCK_1_0_SIZE_def)

section \<open>Slab scrubber\<close>

lemma apply_entries_from_log:
  assumes "apply_entries_from replay block n bn m i refs log = (r, refs', log')"
  shows "(\<exists>new. log' = log @ new \<and> (\<forall>pe\<in>set new. point_sequence_number (fst pe) = bn))
       \<and> (r = VDO_SUCCESS \<or> r = VDO_CORRUPT_JOURNAL \<or> (\<exists>rf p e. point_sequence_number p = bn \<and> fst (replay rf p e) = r))"
  using assms
proof (induction replay block n bn m i refs log rule: apply_entries_from.induct)
  case (1 replay block n bn m i refs log)
  show ?case
  proof (cases "i < n")
    case False
    with "1.prems" show ?thesis
      by (subst (asm) apply_entries_from.simps) simp
  next
    case True
    let ?entry = "decode_vdo_slab_journal_entry block i"
    let ?point = "\<lparr>point_sequence_number = bn, point_entry_count = word_of_nat i\<rparr>"
    show ?thesis
    proof (cases "sbn ?entry > m")
      case True
      with \<open>i < n\<close> "1.prems" show ?thesis
        by (subst (asm) apply_entries_from.simps) simp
    next
      case False
      obtain result refs1 where rp: "replay refs ?point ?entry = (result, refs1)"
        by (cases "replay refs ?point ?entry")
      show ?thesis
      proof (cases "result = VDO_SUCCESS")
        case False
        with \<open>i < n\<close> \<open>\<not> sbn ?entry > m\<close> rp "1.prems"
        have "r = result \<and> log' = log @ [(?point, ?entry)]"
          by (subst (asm) apply_entries_from.simps) (simp add: Let_def)
        then have r: "r = result" and l: "log' = log @ [(?point, ?entry)]" by simp_all
        have "\<exists>new. log' = log @ new \<and> (\<forall>pe\<in>set new. point_sequence_number (fst pe) = bn)"
          using l by (intro exI [of _ "[(?point, ?entry)]"]) simp
        moreover have "\<exists>rf p e. point_sequence_number p = bn \<and> fst (replay rf p e) = r"
          using rp r by (intro exI [of _ refs] exI [of _ ?point] exI [of _ ?entry]) simp
        ultimately show ?thesis by simp
      next
        case True
        with \<open>i < n\<close> \<open>\<not> sbn ?entry > m\<close> rp "1.prems"
        have rec: "apply_entries_from replay block n bn m (Suc i) refs1 (log @ [(?point, ?entry)])
                = (r, refs', log')"
          by (subst (asm) apply_entries_from.simps) (simp add: Let_def)
        have nn: "\<not> result \<noteq> VDO_SUCCESS" using True by simp
        note ih = "1.IH" [OF \<open>i < n\<close> refl \<open>\<not> sbn ?entry > m\<close> refl rp [symmetric] nn rec]
        from ih [THEN conjunct1] obtain new where
          new: "log' = (log @ [(?point, ?entry)]) @ new"
               "\<forall>pe\<in>set new. point_sequence_number (fst pe) = bn"
          by blast
        have "\<exists>new. log' = log @ new \<and> (\<forall>pe\<in>set new. point_sequence_number (fst pe) = bn)"
          using new by (intro exI [of _ "(?point, ?entry) # new"]) simp
        then show ?thesis using ih [THEN conjunct2] by (rule conjI)
      qed
    qed
  qed
qed


lemma apply_block_entries_log:
  assumes "apply_block_entries replay block k bn slab refs log = (r, refs', log')"
  shows "(\<exists>new. log' = log @ new \<and> (\<forall>pe\<in>set new. point_sequence_number (fst pe) = bn))
       \<and> (r = VDO_SUCCESS \<or> r = VDO_CORRUPT_JOURNAL \<or> (\<exists>rf p e. point_sequence_number p = bn \<and> fst (replay rf p e) = r))"
  using assms unfolding apply_block_entries_def Let_def
  by (rule apply_entries_from_log)

lemma unat_sequence_succ:
  fixes sequence s :: "64 word"
  assumes "sequence < s"
  shows "unat (sequence + 1) = Suc (unat sequence)"
proof -
  have "unat sequence < unat s" using assms by (simp add: word_less_nat_alt)
  then have "unat sequence + 1 < 2 ^ 64"
    using unsigned_less [of s, where ?'a = nat] by simp
  then show ?thesis by (simp add: unat_word_ariths)
qed

lemma scrub_blocks_invalid_block:
  assumes "scrub_blocks replay data slab tl_seq sequence index lastp refs log = (r, lastp', refs', log')"
    and "sequence \<le> s" and "s < tl_seq"
    and "block_fails_validation slab
           (header (data (unat (block_index_after slab index (unat s - unat sequence))))) s"
    and "\<forall>pe\<in>set log. point_sequence_number (fst pe) < s"
  shows "(\<exists>err. r = Some err
            \<and> (err = VDO_CORRUPT_JOURNAL
                \<or> (\<exists>rf p e. point_sequence_number p < s
                       \<and> fst (replay rf p e) = err \<and> err \<noteq> VDO_SUCCESS)))
       \<and> (\<forall>pe\<in>set log'. point_sequence_number (fst pe) < s)"
  using assms
proof (induction replay data slab tl_seq sequence index lastp refs log rule: scrub_blocks.induct)
  case (1 replay data slab tl_seq sequence index lastp refs log)
  let ?block = "data (unat index)"
  let ?hdr = "header ?block"
  have lt: "sequence < tl_seq" using "1.prems"(2,3) by simp
  show ?case
  proof (cases "block_fails_validation slab ?hdr sequence")
    case True
    with lt "1.prems"(1) have "r = Some VDO_CORRUPT_JOURNAL" "log' = log"
      by (subst (asm) scrub_blocks.simps, simp add: Let_def)+
    with "1.prems"(5) show ?thesis by simp
  next
    case valid: False
    have ne: "sequence \<noteq> s"
    proof
      assume "sequence = s"
      with "1.prems"(4) have "block_fails_validation slab ?hdr sequence"
        by (simp add: block_index_after_def)
      with valid show False by simp
    qed
    then have ss: "sequence < s" using "1.prems"(2) by simp
    obtain result refs1 log1 where ap:
      "apply_block_entries replay ?block (block_entry_count ?hdr) sequence slab refs log
         = (result, refs1, log1)"
      by (cases "apply_block_entries replay ?block (block_entry_count ?hdr) sequence slab refs log")
    from apply_block_entries_log [OF ap, THEN conjunct1] obtain new where
      new: "log1 = log @ new" "\<forall>pe\<in>set new. point_sequence_number (fst pe) = sequence"
      by blast
    have res: "result = VDO_SUCCESS \<or> result = VDO_CORRUPT_JOURNAL
                 \<or> (\<exists>rf p e. point_sequence_number p = sequence \<and> fst (replay rf p e) = result)"
      by (rule apply_block_entries_log [OF ap, THEN conjunct2])
    have log1: "\<forall>pe\<in>set log1. point_sequence_number (fst pe) < s"
      using new "1.prems"(5) ss by auto
    show ?thesis
    proof (cases "result = VDO_SUCCESS")
      case False
      with lt valid ap "1.prems"(1) have r: "r = Some result" "log' = log1"
        by (subst (asm) scrub_blocks.simps, simp add: Let_def)+
      from res False have "result = VDO_CORRUPT_JOURNAL
          \<or> (\<exists>rf p e. point_sequence_number p = sequence \<and> fst (replay rf p e) = result)"
        by simp
      then have "result = VDO_CORRUPT_JOURNAL
          \<or> (\<exists>rf p e. point_sequence_number p < s
                 \<and> fst (replay rf p e) = result \<and> result \<noteq> VDO_SUCCESS)"
      proof
        assume "result = VDO_CORRUPT_JOURNAL"
        then show ?thesis by simp
      next
        assume "\<exists>rf p e. point_sequence_number p = sequence \<and> fst (replay rf p e) = result"
        then obtain rf p e where "point_sequence_number p = sequence"
            "fst (replay rf p e) = result" by blast
        with ss False have "point_sequence_number p < s
            \<and> fst (replay rf p e) = result \<and> result \<noteq> VDO_SUCCESS" by simp
        then show ?thesis by blast
      qed
      then have "\<exists>err. r = Some err
            \<and> (err = VDO_CORRUPT_JOURNAL
                \<or> (\<exists>rf p e. point_sequence_number p < s
                       \<and> fst (replay rf p e) = err \<and> err \<noteq> VDO_SUCCESS))"
        using r(1) by (intro exI [of _ result] conjI)
      moreover have "\<forall>pe\<in>set log'. point_sequence_number (fst pe) < s"
        using log1 r(2) by simp
      ultimately show ?thesis by (rule conjI)
    next
      case True
      let ?last = "\<lparr>point_sequence_number = sequence,
                     point_entry_count = block_entry_count ?hdr - 1\<rparr>"
      from True lt valid ap "1.prems"(1)
      have rec: "scrub_blocks replay data slab tl_seq (sequence + 1)
                   (next_block_index slab index) ?last refs1 log1 = (r, lastp', refs', log')"
        by (subst (asm) scrub_blocks.simps) (simp add: Let_def)
      have le: "sequence + 1 \<le> s" using ss by (simp add: inc_le)
      have "unat sequence < unat s" using ss by (simp add: word_less_nat_alt)
      then have "unat s - unat sequence = Suc (unat s - unat (sequence + 1))"
        using unat_sequence_succ [OF ss] by simp
      then have idx: "block_index_after slab (next_block_index slab index)
                        (unat s - unat (sequence + 1))
                  = block_index_after slab index (unat s - unat sequence)"
        by (simp add: block_index_after_def funpow_swap1)
      have nn: "\<not> result \<noteq> VDO_SUCCESS" using True by simp
      have fails: "block_fails_validation slab
            (header (data (unat (block_index_after slab (next_block_index slab index)
                                   (unat s - unat (sequence + 1)))))) s"
        using "1.prems"(4) by (simp only: idx)
      show ?thesis
        by (rule "1.IH" [OF lt refl refl valid ap [symmetric] refl nn rec le "1.prems"(3)
                           fails log1])
    qed
  qed
qed

lemma entry_above_slab_size_is_corrupt:
  assumes "i < n" and "sbn (decode_vdo_slab_journal_entry block i) > max_sbn"
  shows "apply_entries_from replay block n bn max_sbn i refs log
           = (VDO_CORRUPT_JOURNAL, refs, log)"
  using assms by (subst apply_entries_from.simps) simp

text \<open>
  Claim C2 at the entry the check lets through. The example slab has 8 blocks, so the
  valid slab block numbers are 0 to 7. A block whose first entry names slab block
  number 8 is not rejected: \<open>max_sbn\<close> is \<open>slab->end - slab->start = 8\<close> and the test is
  \<open>entry.sbn > max_sbn\<close>. The entry is handed to the replay function. With a replay
  function that accepts it, so is the entry after it, and the result is \<open>VDO_SUCCESS\<close>;
  with one that refuses it, the result is the replay function's error. In neither case
  does \<open>apply_block_entries\<close> answer \<open>VDO_CORRUPT_JOURNAL\<close> with nothing handed on, as
  the claim asks. One block further out (slab block number 9) it does.
\<close>

theorem apply_block_entries_accepts_sbn_equal_to_slab_size:
  "slab_end example_slab - slab_start example_slab = 8
   \<and> apply_block_entries recording_replay (example_block 5 1 [8, 3]) 2 5 example_slab
        example_refs []
     = (VDO_SUCCESS, example_refs\<lparr>counters := [8, 3]\<rparr>,
        [(\<lparr>point_sequence_number = 5, point_entry_count = 0\<rparr>,
          \<lparr>sbn = 8, operation = DATA_INCREMENT\<rparr>),
         (\<lparr>point_sequence_number = 5, point_entry_count = 1\<rparr>,
          \<lparr>sbn = 3, operation = DATA_INCREMENT\<rparr>)])
   \<and> apply_block_entries (failing_replay VDO_OUT_OF_RANGE) (example_block 5 1 [8, 3]) 2 5
        example_slab example_refs []
     = (VDO_OUT_OF_RANGE, example_refs,
        [(\<lparr>point_sequence_number = 5, point_entry_count = 0\<rparr>,
          \<lparr>sbn = 8, operation = DATA_INCREMENT\<rparr>)])
   \<and> apply_block_entries recording_replay (example_block 5 1 [9, 3]) 2 5 example_slab
        example_refs []
     = (VDO_CORRUPT_JOURNAL, example_refs, [])"
  by (simp add: apply_block_entries_def recording_replay_def failing_replay_def
        example_block_def example_slab_def example_refs_def
        decode_vdo_slab_journal_entry_def apply_entries_from.simps)

text \<open>
  Claim C3, as stated, has scrubbing abort with \<open>VDO_CORRUPT_JOURNAL\<close> whenever a block of
  the live range fails validation. In the example journal the block for sequence number
  1 fails validation (wrong nonce), but the entry of the block before it cannot be
  applied: scrubbing aborts with the error of that entry, here \<open>VDO_OUT_OF_RANGE\<close>.
\<close>

theorem scrubbing_aborts_with_earlier_replay_error:
  "(0 :: 64 word) \<le> 1 \<and> (1 :: 64 word) < tail (journal example_slab)
   \<and> block_fails_validation example_slab (header (example_journal_data 1)) 1
   \<and> apply_journal_entries (failing_replay VDO_OUT_OF_RANGE) example_journal_data
         example_slab example_refs
       = ([vdo_enter_read_only_mode VDO_OUT_OF_RANGE,
           set_vdo_completion_result VDO_OUT_OF_RANGE, scrub_next_slab],
          example_refs,
          [(\<lparr>point_sequence_number = 0, point_entry_count = 0\<rparr>,
            \<lparr>sbn = 3, operation = DATA_INCREMENT\<rparr>)])"
  by (simp add: failing_replay_def apply_journal_entries_def Let_def abort_scrubbing_def example_journal_data_def
       example_slab_def example_refs_def example_block_def
       get_vdo_slab_journal_block_offset_def scrub_blocks.simps apply_entries_from.simps
       apply_block_entries_def block_fails_validation_def VDO_METADATA_SLAB_JOURNAL_def
       decode_vdo_slab_journal_entry_def next_block_index_def block_index_after_def)

lemma call_statuses_append:
  "call_statuses replay refs (xs @ ys)
     = call_statuses replay refs xs @ call_statuses replay (refs_after_calls replay refs xs) ys"
  by (induction xs arbitrary: refs) simp_all

lemma refs_after_calls_append:
  "refs_after_calls replay refs (xs @ ys)
     = refs_after_calls replay (refs_after_calls replay refs xs) ys"
  by (induction xs arbitrary: refs) simp_all

lemma find_None_append:
  "find P xs = None \<Longrightarrow> find P (xs @ ys) = find P ys"
  by (induction xs) (simp_all split: if_splits)

lemma first_failure_snoc:
  assumes "first_failure replay refs0 log = None"
    and "replay (refs_after_calls replay refs0 log) p e = (result, refs1)"
  shows "first_failure replay refs0 (log @ [(p, e)])
           = (if result \<noteq> VDO_SUCCESS then Some result else None)"
    and "refs_after_calls replay refs0 (log @ [(p, e)]) = refs1"
  using assms
  by (simp_all add: first_failure_def call_statuses_append refs_after_calls_append
        find_None_append)

lemma apply_entries_from_trace:
  assumes "apply_entries_from replay block n bn m i refs log = (r, refs', log')"
    and "refs = refs_after_calls replay refs0 log"
    and "first_failure replay refs0 log = None"
  shows "refs' = refs_after_calls replay refs0 log'
       \<and> ((r = VDO_SUCCESS \<or> r = VDO_CORRUPT_JOURNAL) \<and> first_failure replay refs0 log' = None
           \<or> r \<noteq> VDO_SUCCESS \<and> first_failure replay refs0 log' = Some r)"
  using assms
proof (induction replay block n bn m i refs log rule: apply_entries_from.induct)
  case (1 replay block n bn m i refs log)
  show ?case
  proof (cases "i < n")
    case False
    with "1.prems"(1) have "r = VDO_SUCCESS \<and> refs' = refs \<and> log' = log"
      by (subst (asm) apply_entries_from.simps) simp
    with "1.prems"(2,3) show ?thesis by simp
  next
    case True
    let ?entry = "decode_vdo_slab_journal_entry block i"
    let ?point = "\<lparr>point_sequence_number = bn, point_entry_count = word_of_nat i\<rparr>"
    show ?thesis
    proof (cases "sbn ?entry > m")
      case True
      with \<open>i < n\<close> "1.prems"(1) have "r = VDO_CORRUPT_JOURNAL \<and> refs' = refs \<and> log' = log"
        by (subst (asm) apply_entries_from.simps) simp
      with "1.prems"(2,3) show ?thesis by simp
    next
      case False
      obtain result refs1 where rp: "replay refs ?point ?entry = (result, refs1)"
        by (cases "replay refs ?point ?entry")
      have rp0: "replay (refs_after_calls replay refs0 log) ?point ?entry = (result, refs1)"
        using rp "1.prems"(2) by simp
      note snoc = first_failure_snoc [OF "1.prems"(3) rp0]
      show ?thesis
      proof (cases "result = VDO_SUCCESS")
        case False
        with \<open>i < n\<close> \<open>\<not> sbn ?entry > m\<close> rp "1.prems"(1)
        have "r = result \<and> refs' = refs1 \<and> log' = log @ [(?point, ?entry)]"
          by (subst (asm) apply_entries_from.simps) (simp add: Let_def)
        with snoc False show ?thesis by simp
      next
        case True
        with \<open>i < n\<close> \<open>\<not> sbn ?entry > m\<close> rp "1.prems"(1)
        have rec: "apply_entries_from replay block n bn m (Suc i) refs1 (log @ [(?point, ?entry)])
                = (r, refs', log')"
          by (subst (asm) apply_entries_from.simps) (simp add: Let_def)
        have nn: "\<not> result \<noteq> VDO_SUCCESS" using True by simp
        have a: "refs1 = refs_after_calls replay refs0 (log @ [(?point, ?entry)])"
          using snoc(2) by simp
        have b: "first_failure replay refs0 (log @ [(?point, ?entry)]) = None"
          using snoc(1) True by simp
        show ?thesis
          by (rule "1.IH" [OF \<open>i < n\<close> refl \<open>\<not> sbn ?entry > m\<close> refl rp [symmetric] nn rec a b])
      qed
    qed
  qed
qed

lemma apply_block_entries_trace:
  assumes "apply_block_entries replay block k bn slab refs log = (r, refs', log')"
    and "refs = refs_after_calls replay refs0 log"
    and "first_failure replay refs0 log = None"
  shows "refs' = refs_after_calls replay refs0 log'
       \<and> ((r = VDO_SUCCESS \<or> r = VDO_CORRUPT_JOURNAL) \<and> first_failure replay refs0 log' = None
           \<or> r \<noteq> VDO_SUCCESS \<and> first_failure replay refs0 log' = Some r)"
  using assms unfolding apply_block_entries_def Let_def
  by (rule apply_entries_from_trace)

lemma scrub_blocks_trace:
  assumes "scrub_blocks replay data slab tl_seq sequence index lastp refs log
             = (r, lastp', refs', log')"
    and "refs = refs_after_calls replay refs0 log"
    and "first_failure replay refs0 log = None"
  shows "refs' = refs_after_calls replay refs0 log'
       \<and> (case r of
            None \<Rightarrow> first_failure replay refs0 log' = None
          | Some err \<Rightarrow>
              err = VDO_CORRUPT_JOURNAL \<and> first_failure replay refs0 log' = None
              \<or> err \<noteq> VDO_SUCCESS \<and> first_failure replay refs0 log' = Some err)"
  using assms
proof (induction replay data slab tl_seq sequence index lastp refs log rule: scrub_blocks.induct)
  case (1 replay data slab tl_seq sequence index lastp refs log)
  let ?block = "data (unat index)"
  let ?hdr = "header ?block"
  show ?case
  proof (cases "sequence < tl_seq")
    case False
    with "1.prems"(1) have "r = None \<and> refs' = refs \<and> log' = log"
      by (subst (asm) scrub_blocks.simps) simp
    with "1.prems"(2,3) show ?thesis by simp
  next
    case lt: True
    show ?thesis
    proof (cases "block_fails_validation slab ?hdr sequence")
      case True
      with lt "1.prems"(1) have "r = Some VDO_CORRUPT_JOURNAL \<and> refs' = refs \<and> log' = log"
        by (subst (asm) scrub_blocks.simps) (simp add: Let_def)
      with "1.prems"(2,3) show ?thesis by simp
    next
      case valid: False
      obtain result refs1 log1 where ap:
        "apply_block_entries replay ?block (block_entry_count ?hdr) sequence slab refs log
           = (result, refs1, log1)"
        by (cases "apply_block_entries replay ?block (block_entry_count ?hdr) sequence slab refs log")
      note tr = apply_block_entries_trace [OF ap "1.prems"(2,3)]
      show ?thesis
      proof (cases "result = VDO_SUCCESS")
        case False
        with lt valid ap "1.prems"(1) have "r = Some result \<and> refs' = refs1 \<and> log' = log1"
          by (subst (asm) scrub_blocks.simps) (simp add: Let_def)
        with tr False show ?thesis by auto
      next
        case True
        let ?last = "\<lparr>point_sequence_number = sequence,
                       point_entry_count = block_entry_count ?hdr - 1\<rparr>"
        from True lt valid ap "1.prems"(1)
        have rec: "scrub_blocks replay data slab tl_seq (sequence + 1)
                     (next_block_index slab index) ?last refs1 log1 = (r, lastp', refs', log')"
          by (subst (asm) scrub_blocks.simps) (simp add: Let_def)
        have nn: "\<not> result \<noteq> VDO_SUCCESS" using True by simp
        have a: "refs1 = refs_after_calls replay refs0 log1" using tr by simp
        have b: "first_failure replay refs0 log1 = None" using tr True by simp
        show ?thesis
          by (rule "1.IH" [OF lt refl refl valid ap [symmetric] refl nn rec a b])
      qed
    qed
  qed
qed

text \<open>
  Claim C3, amended. The live range starts at the \<open>head\<close> recorded in the block before
  the tail. If the block for a sequence number \<open>s\<close> of the live range fails validation
  (wrong nonce, wrong metadata type, wrong sequence number, too many entries, or too many
  entries for a block with block map increments), then scrubbing aborts: the read-only
  notifier is entered with the error, the error is set on the scrubber's completion and
  the scrubber moves on. The error is \<open>VDO_CORRUPT_JOURNAL\<close>, unless an entry of an earlier
  block could not be applied, in which case it is the error of that entry: it is the
  status of the one call of the replay function, among the calls actually made, that did
  not succeed, and \<open>VDO_CORRUPT_JOURNAL\<close> if all of them succeeded. The reference counts
  are those the calls made have left. Every entry handed to the replay function belongs
  to a block before \<open>s\<close>: none of the entries of block \<open>s\<close> is applied.
\<close>

theorem scrubbing_aborts_on_invalid_block:
  assumes hd: "hd_seq = head (header (journal_data (unat
                  (get_vdo_slab_journal_block_offset (journal slab) (tail (journal slab) - 1)))))"
    and hi: "head_index = get_vdo_slab_journal_block_offset (journal slab) hd_seq"
    and range: "hd_seq \<le> s" "s < tail (journal slab)"
    and bad: "block_fails_validation slab
               (header (journal_data (unat (block_index_after slab head_index
                                              (unat s - unat hd_seq))))) s"
  shows "\<exists>err refs' log'.
           apply_journal_entries replay journal_data slab refs
             = ([vdo_enter_read_only_mode err, set_vdo_completion_result err, scrub_next_slab],
                refs', log')
         \<and> err = (case first_failure replay refs log' of
                    None \<Rightarrow> VDO_CORRUPT_JOURNAL
                  | Some st \<Rightarrow> st)
         \<and> err \<noteq> VDO_SUCCESS
         \<and> refs' = refs_after_calls replay refs log'
         \<and> (\<forall>pe\<in>set log'. point_sequence_number (fst pe) < s)"
proof -
  obtain r lastp refs' log' where sb:
    "scrub_blocks replay journal_data slab (tail (journal slab)) hd_seq head_index
       (slab_journal_point refs) refs [] = (r, lastp, refs', log')"
    by (cases "scrub_blocks replay journal_data slab (tail (journal slab)) hd_seq head_index
                 (slab_journal_point refs) refs []") 
  have emp: "\<forall>pe\<in>set ([] :: replay_log). point_sequence_number (fst pe) < s" by simp
  from scrub_blocks_invalid_block [OF sb range bad emp]
  obtain err where err: "r = Some err"
    and lg: "\<forall>pe\<in>set log'. point_sequence_number (fst pe) < s"
    by blast
  have a: "refs = refs_after_calls replay refs []" by simp
  have b: "first_failure replay refs [] = None" by (simp add: first_failure_def)
  from scrub_blocks_trace [OF sb a b] err
  have rf: "refs' = refs_after_calls replay refs log'"
    and e: "err = VDO_CORRUPT_JOURNAL \<and> first_failure replay refs log' = None
              \<or> err \<noteq> VDO_SUCCESS \<and> first_failure replay refs log' = Some err"
    by simp_all
  from e have e1: "err = (case first_failure replay refs log' of
                    None \<Rightarrow> VDO_CORRUPT_JOURNAL
                  | Some st \<Rightarrow> st)" and e2: "err \<noteq> VDO_SUCCESS"
    by auto
  have "apply_journal_entries replay journal_data slab refs
          = ([vdo_enter_read_only_mode err, set_vdo_completion_result err, scrub_next_slab],
             refs', log')"
    using sb err hd hi
    by (simp add: apply_journal_entries_def Let_def abort_scrubbing_def)
  with e1 e2 rf lg show ?thesis by blast
qed

theorem scrubbing_aborts_on_invalid_block_witness:
  "(0 :: 64 word) \<le> 1 \<and> (1 :: 64 word) < tail (journal example_slab)
   \<and> block_fails_validation example_slab (header (example_journal_data 1)) 1
   \<and> apply_journal_entries recording_replay example_journal_data example_slab example_refs
       = ([vdo_enter_read_only_mode VDO_CORRUPT_JOURNAL,
           set_vdo_completion_result VDO_CORRUPT_JOURNAL, scrub_next_slab],
          example_refs\<lparr>counters := [3]\<rparr>,
          [(\<lparr>point_sequence_number = 0, point_entry_count = 0\<rparr>,
            \<lparr>sbn = 3, operation = DATA_INCREMENT\<rparr>)])
   \<and> first_failure recording_replay example_refs
         [(\<lparr>point_sequence_number = 0, point_entry_count = 0\<rparr>,
           \<lparr>sbn = 3, operation = DATA_INCREMENT\<rparr>)] = None
   \<and> refs_after_calls recording_replay example_refs
         [(\<lparr>point_sequence_number = 0, point_entry_count = 0\<rparr>,
           \<lparr>sbn = 3, operation = DATA_INCREMENT\<rparr>)] = example_refs\<lparr>counters := [3]\<rparr>"
proof -
  have hd: "(0 :: 64 word) = head (header (example_journal_data (unat
              (get_vdo_slab_journal_block_offset (journal example_slab)
                 (tail (journal example_slab) - 1)))))"
    by (simp add: apply_journal_entries_def Let_def abort_scrubbing_def example_journal_data_def
       example_slab_def example_refs_def example_block_def
       get_vdo_slab_journal_block_offset_def scrub_blocks.simps apply_entries_from.simps
       apply_block_entries_def block_fails_validation_def VDO_METADATA_SLAB_JOURNAL_def
       decode_vdo_slab_journal_entry_def next_block_index_def block_index_after_def)
  have hi: "(0 :: 64 word) = get_vdo_slab_journal_block_offset (journal example_slab) 0"
    by (simp add: apply_journal_entries_def Let_def abort_scrubbing_def example_journal_data_def
       example_slab_def example_refs_def example_block_def
       get_vdo_slab_journal_block_offset_def scrub_blocks.simps apply_entries_from.simps
       apply_block_entries_def block_fails_validation_def VDO_METADATA_SLAB_JOURNAL_def
       decode_vdo_slab_journal_entry_def next_block_index_def block_index_after_def)
  have range: "(0 :: 64 word) \<le> 1" "(1 :: 64 word) < tail (journal example_slab)"
    by (simp_all add: example_slab_def)
  have bad: "block_fails_validation example_slab
               (header (example_journal_data (unat (block_index_after example_slab 0
                                              (unat (1 :: 64 word) - unat (0 :: 64 word)))))) 1"
    by (simp add: apply_journal_entries_def Let_def abort_scrubbing_def example_journal_data_def
       example_slab_def example_refs_def example_block_def
       get_vdo_slab_journal_block_offset_def scrub_blocks.simps apply_entries_from.simps
       apply_block_entries_def block_fails_validation_def VDO_METADATA_SLAB_JOURNAL_def
       decode_vdo_slab_journal_entry_def next_block_index_def block_index_after_def)
  from scrubbing_aborts_on_invalid_block [OF hd hi range bad, of recording_replay example_refs]
  show ?thesis
    by (simp add: first_failure_def recording_replay_def apply_journal_entries_def Let_def abort_scrubbing_def example_journal_data_def
       example_slab_def example_refs_def example_block_def
       get_vdo_slab_journal_block_offset_def scrub_blocks.simps apply_entries_from.simps
       apply_block_entries_def block_fails_validation_def VDO_METADATA_SLAB_JOURNAL_def
       decode_vdo_slab_journal_entry_def next_block_index_def block_index_after_def)
qed

section \<open>Page cache victim selection\<close>

lemma first_discardable_None:
  "first_discardable page xs = None
     \<longleftrightarrow> (\<forall>i\<in>set xs. busy (page i) \<noteq> 0 \<or> is_in_flight (page i))"
  by (induction xs) auto

lemma first_discardable_Some:
  "first_discardable page xs = Some v
     \<longleftrightarrow> (\<exists>older newer. xs = older @ v # newer
            \<and> (\<forall>i\<in>set older. busy (page i) \<noteq> 0 \<or> is_in_flight (page i))
            \<and> busy (page v) = 0 \<and> \<not> is_in_flight (page v))"
proof (induction xs)
  case Nil
  then show ?case by simp
next
  case (Cons x xs)
  show ?case
  proof (cases "busy (page x) = 0 \<and> \<not> is_in_flight (page x)")
    case True
    have "(\<exists>older newer. x # xs = older @ v # newer
            \<and> (\<forall>i\<in>set older. busy (page i) \<noteq> 0 \<or> is_in_flight (page i))
            \<and> busy (page v) = 0 \<and> \<not> is_in_flight (page v)) \<longleftrightarrow> x = v"
    proof
      assume "\<exists>older newer. x # xs = older @ v # newer
            \<and> (\<forall>i\<in>set older. busy (page i) \<noteq> 0 \<or> is_in_flight (page i))
            \<and> busy (page v) = 0 \<and> \<not> is_in_flight (page v)"
      then obtain older newer where o: "x # xs = older @ v # newer"
        "\<forall>i\<in>set older. busy (page i) \<noteq> 0 \<or> is_in_flight (page i)" by blast
      show "x = v"
      proof (cases older)
        case Nil
        with o(1) show ?thesis by simp
      next
        case (Cons y ys)
        with o(1) have "y = x" by simp
        with Cons o(2) True show ?thesis by simp
      qed
    next
      assume "x = v"
      with True show "\<exists>older newer. x # xs = older @ v # newer
            \<and> (\<forall>i\<in>set older. busy (page i) \<noteq> 0 \<or> is_in_flight (page i))
            \<and> busy (page v) = 0 \<and> \<not> is_in_flight (page v)"
        by (intro exI [of _ "[]"] exI [of _ xs]) simp
    qed
    with True show ?thesis by auto
  next
    case False
    let ?L = "\<exists>older newer. x # xs = older @ v # newer
            \<and> (\<forall>i\<in>set older. busy (page i) \<noteq> 0 \<or> is_in_flight (page i))
            \<and> busy (page v) = 0 \<and> \<not> is_in_flight (page v)"
    let ?R = "\<exists>older newer. xs = older @ v # newer
            \<and> (\<forall>i\<in>set older. busy (page i) \<noteq> 0 \<or> is_in_flight (page i))
            \<and> busy (page v) = 0 \<and> \<not> is_in_flight (page v)"
    have fd: "first_discardable page (x # xs) = first_discardable page xs"
      using False by auto
    have eq: "?L \<longleftrightarrow> ?R"
    proof
      assume ?L
      then obtain older newer where o: "x # xs = older @ v # newer"
        "\<forall>i\<in>set older. busy (page i) \<noteq> 0 \<or> is_in_flight (page i)"
        "busy (page v) = 0 \<and> \<not> is_in_flight (page v)" by blast
      show ?R
      proof (cases older)
        case Nil
        with o(1) have "x = v" by simp
        with o(3) False show ?thesis by simp
      next
        case (Cons y ys)
        with o(1) have "xs = ys @ v # newer" by simp
        moreover from Cons o(2) have "\<forall>i\<in>set ys. busy (page i) \<noteq> 0 \<or> is_in_flight (page i)"
          by simp
        ultimately show ?thesis using o(3) by blast
      qed
    next
      assume ?R
      then obtain older newer where o: "xs = older @ v # newer"
        "\<forall>i\<in>set older. busy (page i) \<noteq> 0 \<or> is_in_flight (page i)"
        "busy (page v) = 0 \<and> \<not> is_in_flight (page v)" by blast
      from o(1) have "x # xs = (x # older) @ v # newer" by simp
      moreover from o(2) False
      have "\<forall>i\<in>set (x # older). busy (page i) \<noteq> 0 \<or> is_in_flight (page i)" by auto
      ultimately show ?L using o(3) by blast
    qed
    show ?thesis by (simp only: fd eq Cons.IH)
  qed
qed

text \<open>
  Claim C4. The page \<open>discard_a_page\<close> picks is the first page of the LRU ring, read from
  its least recently used end, that is neither busy nor in flight: every page before it
  on the ring is busy or in flight. It is handed to \<open>launch_page_save\<close> when dirty and to
  \<open>allocate_free_page\<close> otherwise. When every page on the ring is busy or in flight, no
  page is picked: the only effect is that of \<open>report_cache_pressure\<close>, which counts the
  cache pressure and leaves the pages, the ring and the waiters on \<open>free_waiters\<close> as
  they were.
\<close>

theorem discard_victim_is_least_recently_used:
  "(case select_lru_page cache of
      None \<Rightarrow>
        (\<forall>i\<in>set (lru_list cache).
            busy (infos cache i) \<noteq> 0 \<or> is_in_flight (infos cache i))
        \<and> discard_a_page cache = (report_cache_pressure cache, cache_pressure_reported)
        \<and> infos (report_cache_pressure cache) = infos cache
        \<and> lru_list (report_cache_pressure cache) = lru_list cache
        \<and> free_waiters (report_cache_pressure cache) = free_waiters cache
        \<and> stats_cache_pressure (report_cache_pressure cache) = stats_cache_pressure cache + 1
    | Some victim \<Rightarrow>
        (\<exists>older newer. lru_list cache = older @ victim # newer
            \<and> (\<forall>i\<in>set older. busy (infos cache i) \<noteq> 0 \<or> is_in_flight (infos cache i)))
        \<and> busy (infos cache victim) = 0 \<and> \<not> is_in_flight (infos cache victim)
        \<and> snd (discard_a_page cache)
            = (if is_dirty (infos cache victim) then launch_page_save victim
               else allocate_free_page victim)
        \<and> lru_list (fst (discard_a_page cache)) = lru_list cache
        \<and> free_waiters (fst (discard_a_page cache)) = free_waiters cache)"
proof (cases "select_lru_page cache")
  case None
  then have "\<forall>i\<in>set (lru_list cache). busy (infos cache i) \<noteq> 0 \<or> is_in_flight (infos cache i)"
    by (simp add: select_lru_page_def first_discardable_None)
  with None show ?thesis
    by (simp add: discard_a_page_def report_cache_pressure_def Let_def)
next
  case (Some victim)
  then have "\<exists>older newer. lru_list cache = older @ victim # newer
            \<and> (\<forall>i\<in>set older. busy (infos cache i) \<noteq> 0 \<or> is_in_flight (infos cache i))
            \<and> busy (infos cache victim) = 0 \<and> \<not> is_in_flight (infos cache victim)"
    by (simp add: select_lru_page_def first_discardable_Some)
  with Some show ?thesis
    by (auto simp: discard_a_page_def)
qed

theorem discard_victim_is_least_recently_used_witness:
  "select_lru_page (example_cache [2, 0, 1, 3]) = Some 1
   \<and> discard_a_page (example_cache [2, 0, 1, 3])
       = (example_cache [2, 0, 1, 3], allocate_free_page 1)
   \<and> select_lru_page (example_cache [2, 0]) = None
   \<and> snd (discard_a_page (example_cache [2, 0])) = cache_pressure_reported
   \<and> free_waiters (fst (discard_a_page (example_cache [2, 0]))) = [''requester'']
   \<and> stats_cache_pressure (fst (discard_a_page (example_cache [2, 0]))) = 1"
  using discard_victim_is_least_recently_used [of "example_cache [2, 0, 1, 3]"]
        discard_victim_is_least_recently_used [of "example_cache [2, 0]"]
  by (simp add: select_lru_page_def discard_a_page_def example_cache_def example_pages_def
        is_in_flight_def is_dirty_def report_cache_pressure_def Let_def)

section \<open>Packer: writing out a bin\<close>

lemma batch_of_step:
  assumes "length (incoming bin) > 0"
  shows "batch_of bin =
           (if may_write_compressed (last (incoming bin))
            then last (incoming bin) # batch_of (bin\<lparr>incoming := butlast (incoming bin)\<rparr>)
            else batch_of (bin\<lparr>incoming := butlast (incoming bin)\<rparr>))"
proof -
  from assms have "incoming bin \<noteq> []" by auto
  then obtain ys y where ys: "incoming bin = ys @ [y]"
    by (cases "incoming bin" rule: rev_cases) auto
  then show ?thesis by (simp add: batch_of_def)
qed

lemma remove_from_bin_batch:
  assumes "remove_from_bin p bin = (r, p', bin')"
  shows "(case batch_of bin of
            [] \<Rightarrow> r = None \<and> batch_of bin' = []
          | dv # rest \<Rightarrow> r = Some dv \<and> batch_of bin' = rest)"
  using assms
proof (induction p bin rule: remove_from_bin.induct)
  case (1 p bin)
  show ?case
  proof (cases "length (incoming bin) > 0")
    case False
    with "1.prems" have "r = None" "bin' = bin\<lparr>free_space := bin_data_size p\<rparr>"
      by (subst (asm) remove_from_bin.simps, simp)+
    with False show ?thesis by (simp add: batch_of_def)
  next
    case True
    let ?dv = "last (incoming bin)"
    let ?bin = "bin\<lparr>incoming := butlast (incoming bin)\<rparr>"
    show ?thesis
    proof (cases "may_write_compressed ?dv")
      case True
      with \<open>length (incoming bin) > 0\<close> "1.prems" have "r = Some ?dv" "bin' = ?bin"
        by (subst (asm) remove_from_bin.simps, simp add: Let_def)+
      with True batch_of_step [OF \<open>length (incoming bin) > 0\<close>] show ?thesis by simp
    next
      case False
      with \<open>length (incoming bin) > 0\<close> "1.prems"
      have "remove_from_bin (p\<lparr>canceled_bin := add_to_bin (canceled_bin p) ?dv\<rparr>) ?bin
              = (r, p', bin')"
        by (subst (asm) remove_from_bin.simps) (simp add: Let_def)
      from "1.IH" [OF True refl refl False this] False
           batch_of_step [OF \<open>length (incoming bin) > 0\<close>]
      show ?thesis by simp
    qed
  qed
qed

lemma pack_clients_slots:
  "pk_slot (pack_clients st) = pk_slot st + length (batch_of (pk_bin st))
   \<and> initialized (pk_block (pack_clients st)) = initialized (pk_block st)
   \<and> (pk_slot st \<noteq> 0 \<longrightarrow> sizes (pk_block (pack_clients st)) 0 = sizes (pk_block st) 0)"
proof (induction st rule: pack_clients.induct)
  case (1 st)
  obtain r p bin where rm: "remove_from_bin (pk_packer st) (pk_bin st) = (r, p, bin)"
    by (cases "remove_from_bin (pk_packer st) (pk_bin st)")
  note b = remove_from_bin_batch [OF rm]
  show ?case
  proof (cases r)
    case None
    with b have "batch_of (pk_bin st) = []" by (cases "batch_of (pk_bin st)") simp_all
    with None rm show ?thesis
      by (subst (1 2 3) pack_clients.simps) simp
  next
    case (Some client)
    with b obtain rest where bt: "batch_of (pk_bin st) = client # rest" "batch_of bin = rest"
      by (cases "batch_of (pk_bin st)") simp_all
    let ?st = "pack_fragment (st\<lparr>pk_packer := p, pk_bin := bin\<rparr>) client"
    have pc: "pack_clients st = pack_clients ?st"
      using Some rm by (subst pack_clients.simps) simp
    have "pk_bin ?st = bin" "pk_slot ?st = Suc (pk_slot st)"
         "initialized (pk_block ?st) = initialized (pk_block st)"
         "pk_slot st \<noteq> 0 \<Longrightarrow> sizes (pk_block ?st) 0 = sizes (pk_block st) 0"
      by (simp_all add: pack_fragment_def Let_def vdo_put_compressed_block_fragment_def)
    with "1.IH" [OF rm [symmetric] Some refl] bt pc show ?thesis
      by simp
  qed
qed


lemma write_bin_with_agent:
  assumes "batch_of bin = agent # clients"
  shows "\<exists>st.
     write_bin read_only prepare_result scratch_block p bin =
       ((if clients = [] then abort_packing (agent\<lparr>compression_slot := 0\<rparr>)
         else if read_only then continue_data_vio (agent\<lparr>compression_slot := 0\<rparr>) VDO_READ_ONLY
         else if prepare_result \<noteq> VDO_SUCCESS
           then continue_data_vio (agent\<lparr>compression_slot := 0\<rparr>) prepare_result
         else submit_data_vio_io (agent\<lparr>compression_slot := 0\<rparr>)), st)
     \<and> initialized (pk_block st)
     \<and> sizes (pk_block st) 0 = compression_size agent
     \<and> pk_slot st = Suc (length clients)"
proof -
  obtain r p1 bin1 where rm: "remove_from_bin p bin = (r, p1, bin1)"
    by (cases "remove_from_bin p bin")
  from remove_from_bin_batch [OF rm] assms
  have r: "r = Some agent" and b1: "batch_of bin1 = clients" by simp_all
  let ?agent = "agent\<lparr>compression_slot := 0\<rparr>"
  let ?start = "\<lparr>pk_packer = p1, pk_bin = bin1,
               pk_block = vdo_initialize_compressed_block scratch_block (compression_size ?agent),
               pk_offset = compression_size ?agent, pk_slot = 1, pk_batch = []\<rparr>"
  let ?st = "pack_clients ?start"
  from pack_clients_slots [of ?start] b1
  have slot: "pk_slot ?st = Suc (length clients)"
    and init: "initialized (pk_block ?st)"
    and sz: "sizes (pk_block ?st) 0 = compression_size agent"
    by (simp_all add: vdo_initialize_compressed_block_def)
  show ?thesis
  proof (cases "clients = []")
    case True
    with slot have "pk_slot ?st = 1" by simp
    then have "write_bin read_only prepare_result scratch_block p bin = (abort_packing ?agent, ?st)"
      using rm r by (simp add: write_bin_def Let_def)
    with True slot init sz show ?thesis by simp
  next
    case False
    with slot have ne: "pk_slot ?st \<noteq> 1" by simp
    show ?thesis
    proof (cases "read_only \<or> prepare_result \<noteq> VDO_SUCCESS")
      case True
      then have "write_bin read_only prepare_result scratch_block p bin =
         ((if read_only then continue_data_vio ?agent VDO_READ_ONLY
           else continue_data_vio ?agent prepare_result), ?st)"
        using rm r ne by (auto simp: write_bin_def Let_def)
      with True False slot init sz show ?thesis by auto
    next
      case ok: False
      let ?stats = "statistics (pk_packer ?st)"
      let ?st' = "?st\<lparr>pk_packer := (pk_packer ?st)\<lparr>statistics := ?stats
                     \<lparr>compressed_fragments_in_packer :=
                        compressed_fragments_in_packer ?stats - word_of_nat (pk_slot ?st),
                      compressed_fragments_written :=
                        compressed_fragments_written ?stats + word_of_nat (pk_slot ?st),
                      compressed_blocks_written := compressed_blocks_written ?stats + 1\<rparr>\<rparr>\<rparr>"
      have "write_bin read_only prepare_result scratch_block p bin = (submit_data_vio_io ?agent, ?st')"
        using rm r ne ok by (simp add: write_bin_def Let_def)
      moreover have "initialized (pk_block ?st')" "sizes (pk_block ?st') 0 = compression_size agent"
          "pk_slot ?st' = Suc (length clients)"
        using slot init sz by simp_all
      ultimately show ?thesis using ok False by simp
    qed
  qed
qed

text \<open>
  Claim C6, as stated, has a compressed block written for every batch of two or more.
  With data_vios 1 and 2 in the batch (3 is canceled) and the VDO in read-only mode,
  \<open>write_bin\<close> ends in \<open>continue_data_vio(agent, VDO_READ_ONLY)\<close>: no write is issued.
\<close>

theorem write_bin_read_only_issues_no_write:
  "batch_of (example_bin [1, 3, 2]) = [example_vio 2, example_vio 1]
   \<and> fst (write_bin True VDO_SUCCESS example_scratch_block example_packer
             (example_bin [1, 3, 2]))
       = continue_data_vio (example_vio 2) VDO_READ_ONLY"
proof -
  have b: "batch_of (example_bin [1, 3, 2]) = [example_vio 2, example_vio 1]"
    by (simp add: batch_of_def example_bin_def example_vio_def)
  from write_bin_with_agent [OF b, of True VDO_SUCCESS example_scratch_block example_packer]
  have "fst (write_bin True VDO_SUCCESS example_scratch_block example_packer
               (example_bin [1, 3, 2]))
          = continue_data_vio ((example_vio 2)\<lparr>compression_slot := 0\<rparr>) VDO_READ_ONLY"
    by auto
  then show ?thesis using b by (simp add: example_vio_def)
qed

text \<open>
  Claim C6, amended. The batch of a bin is what \<open>write_bin\<close> takes out of it: the
  data_vios that may still be written compressed. When the batch is a single data_vio,
  packing is aborted for it (\<open>abort_packing\<close>) and no compressed write is issued. When it
  holds two or more, one compressed block is initialized in the agent's scratch block,
  with the agent's fragment in slot 0 and one slot per data_vio of the batch, and it is
  written (\<open>submit_data_vio_io\<close>) unless the VDO is read-only or preparing the write
  fails; then the agent continues with that error and nothing is written.
\<close>

theorem write_bin_by_batch_size:
  "(batch_of bin = [agent] \<longrightarrow>
      fst (write_bin read_only prepare_result scratch_block p bin)
        = abort_packing (agent\<lparr>compression_slot := 0\<rparr>))
   \<and> (batch_of bin = agent # client # rest \<longrightarrow>
      fst (write_bin read_only prepare_result scratch_block p bin)
        = (if read_only
             then continue_data_vio (agent\<lparr>compression_slot := 0\<rparr>) VDO_READ_ONLY
           else if prepare_result \<noteq> VDO_SUCCESS
             then continue_data_vio (agent\<lparr>compression_slot := 0\<rparr>) prepare_result
           else submit_data_vio_io (agent\<lparr>compression_slot := 0\<rparr>))
      \<and> initialized (pk_block (snd (write_bin read_only prepare_result scratch_block p bin)))
      \<and> sizes (pk_block (snd (write_bin read_only prepare_result scratch_block p bin))) 0
          = compression_size agent
      \<and> pk_slot (snd (write_bin read_only prepare_result scratch_block p bin))
          = length (batch_of bin))"
proof (intro conjI impI)
  assume b: "batch_of bin = [agent]"
  from write_bin_with_agent [OF b, of read_only prepare_result scratch_block p]
  show "fst (write_bin read_only prepare_result scratch_block p bin)
          = abort_packing (agent\<lparr>compression_slot := 0\<rparr>)"
    by auto
next
  assume b: "batch_of bin = agent # client # rest"
  from write_bin_with_agent [OF b, of read_only prepare_result scratch_block p]
  obtain st where st:
    "write_bin read_only prepare_result scratch_block p bin =
       ((if read_only then continue_data_vio (agent\<lparr>compression_slot := 0\<rparr>) VDO_READ_ONLY
         else if prepare_result \<noteq> VDO_SUCCESS
           then continue_data_vio (agent\<lparr>compression_slot := 0\<rparr>) prepare_result
         else submit_data_vio_io (agent\<lparr>compression_slot := 0\<rparr>)), st)"
    "initialized (pk_block st)" "sizes (pk_block st) 0 = compression_size agent"
    "pk_slot st = Suc (length (client # rest))"
    by auto
  from st(1) show "fst (write_bin read_only prepare_result scratch_block p bin)
        = (if read_only
             then continue_data_vio (agent\<lparr>compression_slot := 0\<rparr>) VDO_READ_ONLY
           else if prepare_result \<noteq> VDO_SUCCESS
             then continue_data_vio (agent\<lparr>compression_slot := 0\<rparr>) prepare_result
           else submit_data_vio_io (agent\<lparr>compression_slot := 0\<rparr>))"
    by simp
  from st show "initialized (pk_block (snd (write_bin read_only prepare_result scratch_block p bin)))"
    by simp
  from st show "sizes (pk_block (snd (write_bin read_only prepare_result scratch_block p bin))) 0
          = compression_size agent"
    by simp
  from st b show "pk_slot (snd (write_bin read_only prepare_result scratch_block p bin))
          = length (batch_of bin)"
    by simp
qed

theorem write_bin_by_batch_size_witness:
  "batch_of (example_bin [1, 3]) = [example_vio 1]
   \<and> fst (write_bin False VDO_SUCCESS example_scratch_block example_packer (example_bin [1, 3]))
       = abort_packing (example_vio 1)
   \<and> batch_of (example_bin [1, 3, 2]) = example_vio 2 # example_vio 1 # []
   \<and> fst (write_bin False VDO_SUCCESS example_scratch_block example_packer
             (example_bin [1, 3, 2]))
       = submit_data_vio_io (example_vio 2)
   \<and> pk_slot (snd (write_bin False VDO_SUCCESS example_scratch_block example_packer
                     (example_bin [1, 3, 2]))) = 2"
proof -
  have b1: "batch_of (example_bin [1, 3]) = [example_vio 1]"
    by (simp add: batch_of_def example_bin_def example_vio_def)
  have b2: "batch_of (example_bin [1, 3, 2]) = example_vio 2 # example_vio 1 # []"
    by (simp add: batch_of_def example_bin_def example_vio_def)
  from write_bin_by_batch_size
         [of "example_bin [1, 3]" "example_vio 1" False VDO_SUCCESS example_scratch_block
             example_packer]
       write_bin_by_batch_size
         [of "example_bin [1, 3, 2]" "example_vio 2" False VDO_SUCCESS example_scratch_block
             example_packer "example_vio 1" "[]"]
       b1 b2
  show ?thesis by (simp add: example_vio_def)
qed

section \<open>Volume chapter boundaries: the end of the volume\<close>

lemma find_end_loop_returns:
  assumes "1 \<le> span" and "limit + span \<le> 2 ^ 32"
  shows "\<exists>r. find_end_loop probeChapter limit span tries = Some r"
  using assms
proof (induction "limit * (2 ^ 32 + 1) + span" arbitrary: limit span tries rule: less_induct)
  case less
  show ?case
  proof (cases "limit > 0")
    case False
    then show ?thesis by (subst find_end_loop.simps) simp
  next
    case True
    let ?chapter = "if span > limit then 0 else limit - span"
    obtain res vcn where pr: "probeChapter ?chapter = (res, vcn)"
      by (cases "probeChapter ?chapter")
    show ?thesis
    proof (cases "res = UDS_SUCCESS")
      case ok: True
      show ?thesis
      proof (cases "span = 1")
        case True
        with ok pr \<open>limit > 0\<close> show ?thesis
          by (subst find_end_loop.simps) (simp add: Let_def)
      next
        case False
        with less.prems have "1 \<le> span div 2" "limit + span div 2 \<le> 2 ^ 32"
          "limit * (2 ^ 32 + 1) + span div 2 < limit * (2 ^ 32 + 1) + span"
          by simp_all
        from less.hyps [OF this(3) this(1) this(2), of 0]
        obtain r where "find_end_loop probeChapter limit (span div 2) 0 = Some r" by blast
        with False ok pr \<open>limit > 0\<close> show ?thesis
          by (subst find_end_loop.simps) (simp add: Let_def)
      qed
    next
      case nok: False
      show ?thesis
      proof (cases "res = UDS_CORRUPT_COMPONENT")
        case False
        with nok pr \<open>limit > 0\<close> show ?thesis
          by (subst find_end_loop.simps) (simp add: Let_def)
      next
        case True
        let ?tries = "(tries + 1) mod 2 ^ 32"
        let ?span = "if ?tries > 1 then (span * 2) mod 2 ^ 32 else span"
        have "\<exists>r. find_end_loop probeChapter ?chapter ?span ?tries = Some r"
        proof (cases "?chapter = 0")
          case True
          then show ?thesis by (subst find_end_loop.simps) simp
        next
          case False
          then have c: "?chapter = limit - span" "span < limit" by (auto split: if_splits)
          with less.prems have "span * 2 < 2 ^ 32" by simp
          then have s: "1 \<le> ?span" "?span \<le> 2 * span" using less.prems(1) by auto
          have "?chapter + ?span \<le> 2 ^ 32" using c s less.prems by simp
          moreover have "?chapter * (2 ^ 32 + 1) + ?span < limit * (2 ^ 32 + 1) + span"
          proof -
            have "?chapter + 1 \<le> limit" using c less.prems(1) by simp
            then have "(?chapter + 1) * (2 ^ 32 + 1) \<le> limit * (2 ^ 32 + 1)"
              by (rule mult_le_mono1)
            moreover have "?span \<le> 2 ^ 32" using s \<open>span * 2 < 2 ^ 32\<close> by simp
            ultimately show ?thesis using less.prems(1) by simp
          qed
          ultimately show ?thesis using less.hyps s(1) by blast
        qed
        then obtain r where "find_end_loop probeChapter ?chapter ?span ?tries = Some r" by blast
        with True pr \<open>limit > 0\<close> show ?thesis
          by (subst find_end_loop.simps) (simp add: Let_def)
      qed
    qed
  qed
qed


lemma find_end_loop_all_corrupt:
  assumes "1 \<le> span" and "limit + span \<le> 2 ^ 32"
    and "\<forall>c<limit. fst (probeChapter c) = UDS_CORRUPT_COMPONENT"
  shows "find_end_loop probeChapter limit span tries = Some (Inr 0)"
  using assms
proof (induction limit arbitrary: span tries rule: less_induct)
  case (less limit)
  show ?case
  proof (cases "limit > 0")
    case False
    then show ?thesis by (subst find_end_loop.simps) simp
  next
    case True
    let ?chapter = "if span > limit then 0 else limit - span"
    have lt: "?chapter < limit" using True less.prems(1) by auto
    obtain vcn where pr: "probeChapter ?chapter = (UDS_CORRUPT_COMPONENT, vcn)"
      using less.prems(3) lt by (cases "probeChapter ?chapter") auto
    let ?tries = "(tries + 1) mod 2 ^ 32"
    let ?span = "if ?tries > 1 then (span * 2) mod 2 ^ 32 else span"
    have "find_end_loop probeChapter ?chapter ?span ?tries = Some (Inr 0)"
    proof (cases "?chapter = 0")
      case True
      then show ?thesis by (subst find_end_loop.simps) simp
    next
      case False
      then have c: "?chapter = limit - span" "span < limit" by (auto split: if_splits)
      with less.prems have "span * 2 < 2 ^ 32" by simp
      then have s: "1 \<le> ?span" "?span \<le> 2 * span" using less.prems(1) by auto
      have "?chapter + ?span \<le> 2 ^ 32" using c s less.prems by simp
      moreover have "\<forall>c<?chapter. fst (probeChapter c) = UDS_CORRUPT_COMPONENT"
        using less.prems(3) lt by auto
      ultimately show ?thesis using less.IH [OF lt s(1)] by blast
    qed
    with pr True show ?thesis
      by (subst find_end_loop.simps) (simp add: Let_def)
  qed
qed

lemma find_end_loop_error:
  "find_end_loop probeChapter limit span tries = Some r \<Longrightarrow> r \<noteq> Inl UDS_SUCCESS"
proof (induction rule: find_end_loop.raw_induct [rotated 1, consumes 1])
  case (1 find_end_loop probeChapter limit span tries r)
  then show ?case
    by (auto simp: Let_def split: if_splits prod.splits)
qed

text \<open>
  Claim C10. \<open>findRealEndOfVolume\<close> always returns (for a volume of fewer than \<open>2^32\<close>
  chapters). When every chapter probes as \<open>UDS_CORRUPT_COMPONENT\<close> it returns the chapter
  limit 0, and whenever the chapter limit is 0, \<open>findVolumeChapterBoundaries\<close> returns
  \<open>UDS_SUCCESS\<close> with \<open>*lowestVCN = 0\<close>, \<open>*highestVCN = 0\<close> and \<open>*isEmpty = true\<close>. In every
  other case in which it returns \<open>UDS_SUCCESS\<close>, \<open>*isEmpty\<close> has been set to \<open>false\<close>.
\<close>

theorem empty_volume_boundaries:
  assumes "chapters_per_volume < 2 ^ 32"
  shows "(\<exists>r. findRealEndOfVolume probeChapter chapters_per_volume = Some r)
     \<and> ((\<forall>c<chapters_per_volume. fst (probeChapter c) = UDS_CORRUPT_COMPONENT)
          \<longrightarrow> findRealEndOfVolume probeChapter chapters_per_volume = Some (Inr 0))
     \<and> (findRealEndOfVolume probeChapter chapters_per_volume = Some (Inr 0)
          \<longrightarrow> findVolumeChapterBoundaries probeChapter chapters_per_volume
               = Some \<lparr>returned = UDS_SUCCESS, lowestVCN = Some 0, highestVCN = Some 0,
                       isEmpty = Some True\<rparr>)
     \<and> (\<forall>b. findVolumeChapterBoundaries probeChapter chapters_per_volume = Some b
              \<and> returned b = UDS_SUCCESS
              \<and> findRealEndOfVolume probeChapter chapters_per_volume \<noteq> Some (Inr 0)
          \<longrightarrow> isEmpty b = Some False)"
proof (intro conjI impI allI)
  show "\<exists>r. findRealEndOfVolume probeChapter chapters_per_volume = Some r"
    unfolding findRealEndOfVolume_def
    using assms by (intro find_end_loop_returns) simp_all
next
  assume "\<forall>c<chapters_per_volume. fst (probeChapter c) = UDS_CORRUPT_COMPONENT"
  then show "findRealEndOfVolume probeChapter chapters_per_volume = Some (Inr 0)"
    unfolding findRealEndOfVolume_def
    using assms by (intro find_end_loop_all_corrupt) simp_all
next
  assume "findRealEndOfVolume probeChapter chapters_per_volume = Some (Inr 0)"
  then show "findVolumeChapterBoundaries probeChapter chapters_per_volume
               = Some \<lparr>returned = UDS_SUCCESS, lowestVCN = Some 0, highestVCN = Some 0,
                       isEmpty = Some True\<rparr>"
    by (simp add: findVolumeChapterBoundaries_def)
next
  fix b
  assume a: "findVolumeChapterBoundaries probeChapter chapters_per_volume = Some b
              \<and> returned b = UDS_SUCCESS
              \<and> findRealEndOfVolume probeChapter chapters_per_volume \<noteq> Some (Inr 0)"
  then show "isEmpty b = Some False"
    using find_end_loop_error [of probeChapter chapters_per_volume 1 0]
    by (auto simp: findVolumeChapterBoundaries_def findRealEndOfVolume_def
             split: option.splits sum.splits if_splits prod.splits)
qed

theorem empty_volume_boundaries_witness:
  "(5 :: nat) < 2 ^ 32
   \<and> findVolumeChapterBoundaries (\<lambda>c. (UDS_CORRUPT_COMPONENT, 0)) 5
       = Some \<lparr>returned = UDS_SUCCESS, lowestVCN = Some 0, highestVCN = Some 0,
               isEmpty = Some True\<rparr>
   \<and> findRealEndOfVolume (\<lambda>c. (UDS_SUCCESS, word_of_nat c)) 4 = Some (Inr 4)
   \<and> findVolumeChapterBoundaries (\<lambda>c. (UDS_SUCCESS, word_of_nat c)) 4
       = Some \<lparr>returned = UDS_SUCCESS, lowestVCN = Some 0, highestVCN = Some 3,
               isEmpty = Some False\<rparr>"
proof -
  have five: "(5 :: nat) < 2 ^ 32" by simp
  have four: "(4 :: nat) < 2 ^ 32" by simp
  have e: "findRealEndOfVolume (\<lambda>c. (UDS_SUCCESS, word_of_nat c)) 4 = Some (Inr 4)"
    by (simp add: findRealEndOfVolume_def find_end_loop.simps)
  have b: "findVolumeChapterBoundaries (\<lambda>c. (UDS_SUCCESS, word_of_nat c)) 4
       = Some \<lparr>returned = UDS_SUCCESS, lowestVCN = Some 0, highestVCN = Some 3,
               isEmpty = Some False\<rparr>"
    by (simp add: findVolumeChapterBoundaries_def e findVolumeChapterBoundariesImpl_def
          probeWrapper_def search_discontinuity.simps scan_backwards.simps UINT64_MAX_def
          MAX_BAD_CHAPTERS_def)
  from empty_volume_boundaries [OF five, of "\<lambda>c. (UDS_CORRUPT_COMPONENT, 0)"]
       empty_volume_boundaries [OF four, of "\<lambda>c. (UDS_SUCCESS, word_of_nat c)"] e b
  show ?thesis by simp
qed

section \<open>Volume chapter boundaries: the boundary search\<close>

lemma search_discontinuity_finds:
  assumes "rightChapter \<le> 2 ^ 31" and "leftChapter \<le> k" and "k \<le> rightChapter"
    and "\<forall>c. leftChapter \<le> c \<and> c < k \<longrightarrow> firstVCN \<le> vcn c"
    and "\<forall>c. k \<le> c \<and> c < rightChapter \<longrightarrow> \<not> firstVCN \<le> vcn c"
  shows "search_discontinuity (probe_of vcn) firstVCN leftChapter rightChapter
           = Some (Inr (k, k))"
  using assms
proof (induction "rightChapter - leftChapter" arbitrary: leftChapter rightChapter
         rule: less_induct)
  case less
  show ?case
  proof (cases "leftChapter < rightChapter")
    case False
    with less.prems have "leftChapter = k" "rightChapter = k" by simp_all
    then show ?thesis by (subst search_discontinuity.simps) simp
  next
    case True
    let ?chapter = "((leftChapter + rightChapter) mod 2 ^ 32) div 2"
    have sum: "leftChapter + rightChapter < 2 ^ 32" using True less.prems(1) by simp
    then have ch: "?chapter = (leftChapter + rightChapter) div 2" by simp
    have bounds: "leftChapter \<le> ?chapter" "?chapter < rightChapter"
      using True ch by simp_all
    have succ: "(?chapter + 1) mod 2 ^ 32 = ?chapter + 1"
      using bounds(2) less.prems(1) by simp
    show ?thesis
    proof (cases "firstVCN \<le> vcn ?chapter")
      case up: True
      then have "?chapter < k" using less.prems(5) bounds(2) by (meson not_le_imp_less)
      then have "?chapter + 1 \<le> k" by simp
      moreover have "rightChapter - (?chapter + 1) < rightChapter - leftChapter"
        using bounds by simp
      moreover have "\<forall>c. ?chapter + 1 \<le> c \<and> c < k \<longrightarrow> firstVCN \<le> vcn c"
        using less.prems(4) bounds(1) by simp
      ultimately have "search_discontinuity (probe_of vcn) firstVCN (?chapter + 1) rightChapter
                         = Some (Inr (k, k))"
        using less.hyps less.prems(1,3,5) by blast
      with True up succ show ?thesis
        by (subst search_discontinuity.simps) (simp add: Let_def probe_of_def)
    next
      case down: False
      then have "k \<le> ?chapter" using less.prems(4) bounds(1) by (meson not_le_imp_less)
      moreover have "?chapter - leftChapter < rightChapter - leftChapter"
        using bounds True by simp
      moreover have "\<forall>c. k \<le> c \<and> c < ?chapter \<longrightarrow> \<not> firstVCN \<le> vcn c"
        using less.prems(5) bounds(2) by simp
      moreover have "?chapter \<le> 2 ^ 31" using bounds(2) less.prems(1) by simp
      ultimately have "search_discontinuity (probe_of vcn) firstVCN leftChapter ?chapter
                         = Some (Inr (k, k))"
        using less.hyps less.prems(2,4) by blast
      with True down show ?thesis
        by (subst search_discontinuity.simps) (simp add: Let_def probe_of_def)
    qed
  qed
qed


lemma scan_step_index:
  fixes n r :: nat
  assumes "0 < n" and "n \<le> 2 ^ 31" and "r \<le> n"
  shows "((r + n - 1) mod 2 ^ 32) mod n = (if r = 0 then n - 1 else r - 1)"
proof -
  have "r + n - 1 < 2 ^ 32" using assms by simp
  then have "((r + n - 1) mod 2 ^ 32) mod n = (r + n - 1) mod n" by simp
  also have "\<dots> = (if r = 0 then n - 1 else r - 1)"
  proof (cases "r = 0")
    case True
    then show ?thesis using assms(1) by simp
  next
    case False
    then have "r + n - 1 = (r - 1) + n" by simp
    then have "(r + n - 1) mod n = (r - 1) mod n" by (simp only: mod_add_self2)
    moreover have "r - 1 < n" using False assms(3) by simp
    ultimately show ?thesis using False by (simp only: mod_less if_False)
  qed
  finally show ?thesis .
qed

lemma scan_backwards_success:
  assumes "0 < n" and "n \<le> 2 ^ 31" and "a \<le> r" and "r \<le> n" and "all_bad vcn a r"
    and "badChapters + (r - a) < maxBad"
    and "vcn (if a = 0 then n - 1 else a - 1) \<noteq> UINT64_MAX"
  shows "scan_backwards (probe_of vcn) n maxBad r badChapters
           = (UDS_SUCCESS, Some (vcn (if a = 0 then n - 1 else a - 1)))"
  using assms
proof (induction "r - a" arbitrary: r badChapters)
  case 0
  then have "r = a" by simp
  then have idx: "((r + n - 1) mod 2 ^ 32) mod n = (if a = 0 then n - 1 else a - 1)"
    using scan_step_index [OF "0.prems"(1,2,4)] by simp
  show ?case
    using "0.prems"(7)
    by (subst scan_backwards.simps, subst idx) (simp add: Let_def probe_of_def)
next
  case (Suc m)
  then have r: "a < r" "r \<noteq> 0" by simp_all
  have idx: "((r + n - 1) mod 2 ^ 32) mod n = r - 1"
    using scan_step_index [OF Suc.prems(1,2,4)] r by simp
  have bad: "vcn (r - 1) = UINT64_MAX"
    using Suc.prems(5) r by (simp add: all_bad_def)
  have more: "\<not> maxBad \<le> Suc badChapters" using Suc.prems(6) r by simp
  have "scan_backwards (probe_of vcn) n maxBad (r - 1) (Suc badChapters)
          = (UDS_SUCCESS, Some (vcn (if a = 0 then n - 1 else a - 1)))"
  proof (rule Suc.hyps(1))
    show "m = r - 1 - a" using Suc.hyps(2) by simp
    show "a \<le> r - 1" using r by simp
    show "r - 1 \<le> n" using Suc.prems(4) by simp
    show "all_bad vcn a (r - 1)" using Suc.prems(5) by (auto simp: all_bad_def)
    show "Suc badChapters + (r - 1 - a) < maxBad" using Suc.prems(6) r by simp
  qed (use Suc.prems in simp_all)
  with bad more show ?case
    by (subst scan_backwards.simps, subst idx) (simp add: Let_def probe_of_def)
qed

lemma scan_backwards_too_many:
  assumes "0 < n" and "n \<le> 2 ^ 31" and "a < r" and "r \<le> n" and "all_bad vcn a r"
    and "maxBad \<le> badChapters + (r - a)"
  shows "scan_backwards (probe_of vcn) n maxBad r badChapters = (UDS_CORRUPT_COMPONENT, None)"
  using assms
proof (induction "r - a" arbitrary: r badChapters)
  case 0
  then show ?case by simp
next
  case (Suc m)
  then have r: "r \<noteq> 0" by simp
  have idx: "((r + n - 1) mod 2 ^ 32) mod n = r - 1"
    using scan_step_index [OF Suc.prems(1,2,4)] r by simp
  have bad: "vcn (r - 1) = UINT64_MAX"
    using Suc.prems(3,5) by (simp add: all_bad_def)
  show ?case
  proof (cases "maxBad \<le> Suc badChapters")
    case True
    with bad show ?thesis
      by (subst scan_backwards.simps, subst idx) (simp add: Let_def probe_of_def)
  next
    case False
    have "scan_backwards (probe_of vcn) n maxBad (r - 1) (Suc badChapters)
            = (UDS_CORRUPT_COMPONENT, None)"
    proof (rule Suc.hyps(1))
      show "m = r - 1 - a" using Suc.hyps(2) by simp
      show "a < r - 1" using False Suc.prems(3,6) by simp
      show "r - 1 \<le> n" using Suc.prems(4) by simp
      show "all_bad vcn a (r - 1)" using Suc.prems(5) by (auto simp: all_bad_def)
      show "maxBad \<le> Suc badChapters + (r - 1 - a)" using Suc.prems(3,6) by simp
    qed (use Suc.prems in simp_all)
    with bad False show ?thesis
      by (subst scan_backwards.simps, subst idx) (simp add: Let_def probe_of_def)
  qed
qed


lemma chapter_layout_parts:
  assumes "chapter_layout vcn n a k"
  shows "a \<le> k" and "k \<le> n" and "0 < a \<or> (0 < k \<and> k < n)"
    and "\<And>c. c < a \<Longrightarrow> vcn c \<noteq> UINT64_MAX"
    and "\<And>c d. d < c \<Longrightarrow> c < a \<Longrightarrow> vcn d < vcn c"
    and "\<And>c. a \<le> c \<Longrightarrow> c < k \<Longrightarrow> vcn c = UINT64_MAX"
    and "\<And>c. k \<le> c \<Longrightarrow> c < n \<Longrightarrow> vcn c \<noteq> UINT64_MAX"
    and "\<And>c d. k \<le> d \<Longrightarrow> d < c \<Longrightarrow> c < n \<Longrightarrow> vcn d < vcn c"
    and "0 < a \<Longrightarrow> k < n \<Longrightarrow> vcn (n - 1) < vcn 0"
  using assms by (auto simp: chapter_layout_def increasing_good_def all_bad_def)

lemma chapter_layout_mono:
  assumes "chapter_layout vcn n a k"
  shows "\<And>c d. d \<le> c \<Longrightarrow> c < a \<Longrightarrow> vcn d \<le> vcn c"
    and "\<And>c d. k \<le> d \<Longrightarrow> d \<le> c \<Longrightarrow> c < n \<Longrightarrow> vcn d \<le> vcn c"
proof -
  note p = chapter_layout_parts [OF assms]
  show "vcn d \<le> vcn c" if "d \<le> c" "c < a" for c d
  proof (cases "d = c")
    case True
    then show ?thesis by simp
  next
    case False
    with that have "d < c" by simp
    then have "vcn d < vcn c" using p(5) that(2) by simp
    then show ?thesis by simp
  qed
  show "vcn d \<le> vcn c" if "k \<le> d" "d \<le> c" "c < n" for c d
  proof (cases "d = c")
    case True
    then show ?thesis by simp
  next
    case False
    with that have "d < c" by simp
    then have "vcn d < vcn c" using p(8) that(1,3) by simp
    then show ?thesis by simp
  qed
qed

lemma sentinel_greatest: "x \<le> UINT64_MAX"
  by (simp add: UINT64_MAX_def)

lemma sentinel_le_iff: "UINT64_MAX \<le> x \<longleftrightarrow> x = UINT64_MAX"
  using sentinel_greatest [of x] by auto

lemma layout_search_predicate:
  assumes "chapter_layout vcn n a k"
  shows "\<forall>c. 0 \<le> c \<and> c < k \<longrightarrow> vcn 0 \<le> vcn c"
    and "\<forall>c. k \<le> c \<and> c < n \<longrightarrow> \<not> vcn 0 \<le> vcn c"
proof -
  note p = chapter_layout_parts [OF assms]
  show "\<forall>c. 0 \<le> c \<and> c < k \<longrightarrow> vcn 0 \<le> vcn c"
  proof (intro allI impI)
    fix c assume c: "0 \<le> c \<and> c < k"
    show "vcn 0 \<le> vcn c"
    proof (cases "c < a")
      case True
      show ?thesis
      proof (cases "c = 0")
        case True
        then show ?thesis by simp
      next
        case False
        then have "vcn 0 < vcn c" using p(5) [of 0 c] True by simp
        then show ?thesis by simp
      qed
    next
      case False
      then have "vcn c = UINT64_MAX" using p(6) [of c] c by simp
      then show ?thesis by (simp add: sentinel_greatest)
    qed
  qed
  show "\<forall>c. k \<le> c \<and> c < n \<longrightarrow> \<not> vcn 0 \<le> vcn c"
  proof (intro allI impI)
    fix c assume c: "k \<le> c \<and> c < n"
    then have good: "vcn c \<noteq> UINT64_MAX" using p(7) by simp
    show "\<not> vcn 0 \<le> vcn c"
    proof (cases "0 < a")
      case False
      then have "0 < k" using p(3) by simp
      then have "vcn 0 = UINT64_MAX" using p(6) [of 0] False by simp
      then show ?thesis using good by (simp add: sentinel_le_iff)
    next
      case True
      have kn: "k < n" using c by simp
      have "c \<le> n - 1" using c by arith
      then have "vcn c \<le> vcn (n - 1)"
        using chapter_layout_mono(2) [OF assms, of c "n - 1"] c by simp
      also have "\<dots> < vcn 0" using p(9) True kn by simp
      finally show ?thesis by simp
    qed
  qed
qed

lemma layout_lowest:
  assumes "0 < n" and "chapter_layout vcn n a k"
  shows "vcn (k mod n) \<noteq> UINT64_MAX" and "Min (good_vcns vcn n) = vcn (k mod n)"
proof -
  note p = chapter_layout_parts [OF assms(2)]
  note m = chapter_layout_mono [OF assms(2)]
  have km: "k mod n = (if k < n then k else 0)" using p(2) by auto
  have kn: "k mod n < n" using assms(1) by simp
  show good: "vcn (k mod n) \<noteq> UINT64_MAX"
  proof (cases "k < n")
    case True
    then show ?thesis using p(7) [of k] by (simp add: km)
  next
    case False
    then have "0 < a" using p(3) by simp
    then show ?thesis using p(4) [of 0] False by (simp add: km)
  qed
  show "Min (good_vcns vcn n) = vcn (k mod n)"
  proof (rule Min_eqI)
    show "finite (good_vcns vcn n)" by (simp add: good_vcns_def)
    show "vcn (k mod n) \<in> good_vcns vcn n"
      using good kn by (auto simp: good_vcns_def)
    fix y assume "y \<in> good_vcns vcn n"
    then obtain c where c: "c < n" "y = vcn c" "vcn c \<noteq> UINT64_MAX"
      by (auto simp: good_vcns_def)
    have where_c: "c < a \<or> k \<le> c" using c(3) p(6) [of c] by (meson not_le_imp_less)
    show "vcn (k mod n) \<le> y"
    proof (cases "k < n")
      case True
      from where_c show ?thesis
      proof
        assume "k \<le> c"
        then have "vcn k \<le> vcn c" using m(2) [of k c] c(1) by simp
        then show ?thesis using True c(2) by (simp add: km)
      next
        assume ca: "c < a"
        have "vcn k \<le> vcn (n - 1)" using m(2) [of k "n - 1"] True by simp
        also have "\<dots> < vcn 0" using p(9) ca True by simp
        also have "\<dots> \<le> vcn c" using m(1) [of 0 c] ca by simp
        finally show ?thesis using True c(2) by (simp add: km)
      qed
    next
      case False
      then have "c < a" using where_c c(1) p(2) by simp
      then have "vcn 0 \<le> vcn c" using m(1) [of 0 c] by simp
      then show ?thesis using False c(2) by (simp add: km)
    qed
  qed
qed

lemma layout_highest:
  assumes "0 < n" and "chapter_layout vcn n a k"
  shows "vcn (if a = 0 then n - 1 else a - 1) \<noteq> UINT64_MAX"
    and "Max (good_vcns vcn n) = vcn (if a = 0 then n - 1 else a - 1)"
proof -
  note p = chapter_layout_parts [OF assms(2)]
  note m = chapter_layout_mono [OF assms(2)]
  let ?h = "if a = 0 then n - 1 else a - 1"
  have hn: "?h < n" using assms(1) p(1,2) by auto
  show good: "vcn ?h \<noteq> UINT64_MAX"
  proof (cases "a = 0")
    case True
    then have "k < n" using p(3) by simp
    then show ?thesis using p(7) [of "n - 1"] True by simp
  next
    case False
    then show ?thesis using p(4) [of "a - 1"] by simp
  qed
  show "Max (good_vcns vcn n) = vcn ?h"
  proof (rule Max_eqI)
    show "finite (good_vcns vcn n)" by (simp add: good_vcns_def)
    show "vcn ?h \<in> good_vcns vcn n"
      using good hn by (auto simp: good_vcns_def)
    fix y assume "y \<in> good_vcns vcn n"
    then obtain c where c: "c < n" "y = vcn c" "vcn c \<noteq> UINT64_MAX"
      by (auto simp: good_vcns_def)
    have where_c: "c < a \<or> k \<le> c" using c(3) p(6) [of c] by (meson not_le_imp_less)
    show "y \<le> vcn ?h"
    proof (cases "a = 0")
      case True
      then have "k \<le> c" using where_c by simp
      then have "vcn c \<le> vcn (n - 1)" using m(2) [of c "n - 1"] c(1) by simp
      then show ?thesis using True c(2) by simp
    next
      case False
      from where_c show ?thesis
      proof
        assume "c < a"
        then have "vcn c \<le> vcn (a - 1)" using m(1) [of c "a - 1"] by simp
        then show ?thesis using False c(2) by simp
      next
        assume kc: "k \<le> c"
        then have kn: "k < n" using c(1) by simp
        have "vcn c \<le> vcn (n - 1)" using m(2) [of c "n - 1"] c(1) kc by simp
        also have "\<dots> < vcn 0" using p(9) False kn by simp
        also have "\<dots> \<le> vcn (a - 1)" using m(1) [of 0 "a - 1"] False by simp
        finally show ?thesis using False c(2) by simp
      qed
    qed
  qed
qed


lemma boundaries_after_search:
  assumes "0 < n" and "n \<le> 2 ^ 31" and "chapter_layout vcn n a k"
  shows "findVolumeChapterBoundariesImpl n maxBad (probe_of vcn) =
           (case scan_backwards (probe_of vcn) n maxBad k 0 of
              (res, None) \<Rightarrow> Some (res, None)
            | (res, Some highest) \<Rightarrow> Some (UDS_SUCCESS, Some (vcn (k mod n), highest)))"
proof -
  note p = chapter_layout_parts [OF assms(3)]
  have "search_discontinuity (probe_of vcn) (vcn 0) 0 n = Some (Inr (k, k))"
    using layout_search_predicate [OF assms(3)] assms(2) p(2)
    by (intro search_discontinuity_finds) simp_all
  moreover have "vcn (k mod n) \<noteq> UINT64_MAX"
    using layout_lowest(1) [OF assms(1,3)] .
  ultimately show ?thesis
    using assms(1) by (simp add: findVolumeChapterBoundariesImpl_def probe_of_def)
qed

text \<open>
  Claim C1, as stated, covers every circular increasing sequence with one run of at most
  \<open>MAX_BAD_CHAPTERS\<close> bad chapters. In the first example volume the bad chapter is not
  adjacent to the discontinuity; the binary search treats it as a large value, settles on
  chapter 6 and the backward scan stops at chapter 4: the function reports lowest 6 and
  highest 4, while the good chapters range from 4 to 10. The volume is one of those the
  claim speaks of.
\<close>

theorem boundaries_wrong_for_bad_chapter_inside:
  "findVolumeChapterBoundariesImpl 7 MAX_BAD_CHAPTERS (probe_of example_bad_chapter_inside)
     = Some (UDS_SUCCESS, Some (6, 4))
   \<and> Min (good_vcns example_bad_chapter_inside 7) = 4
   \<and> Max (good_vcns example_bad_chapter_inside 7) = 10
   \<and> circular_increasing_with_bad_run example_bad_chapter_inside 7 MAX_BAD_CHAPTERS"
proof -
  have "findVolumeChapterBoundariesImpl 7 MAX_BAD_CHAPTERS
          (probe_of example_bad_chapter_inside) = Some (UDS_SUCCESS, Some (6, 4))"
    by (simp add: findVolumeChapterBoundariesImpl_def probe_of_def
          example_bad_chapter_inside_def vcn_of_list_def search_discontinuity.simps
          scan_backwards.simps UINT64_MAX_def MAX_BAD_CHAPTERS_def)
  moreover have "Min (good_vcns example_bad_chapter_inside 7) = 4
      \<and> Max (good_vcns example_bad_chapter_inside 7) = 10"
    by code_simp
  moreover have "circular_increasing_with_bad_run example_bad_chapter_inside 7
                   MAX_BAD_CHAPTERS"
    unfolding circular_increasing_with_bad_run_def
  proof (intro conjI)
    have "sorted_wrt (<) (filter (\<lambda>v. v \<noteq> UINT64_MAX)
                            (rotation example_bad_chapter_inside 7 4))"
      by code_simp
    then show "\<exists>start\<in>{0..<7}. sorted_wrt (<) (filter (\<lambda>v. v \<noteq> UINT64_MAX)
                            (rotation example_bad_chapter_inside 7 start))"
      by (intro bexI [of _ 4]) simp_all
    have "(1 :: nat) \<le> 7 \<and> (\<forall>i\<in>{0..<7}.
             (rotation example_bad_chapter_inside 7 5 ! i = UINT64_MAX) = (i < 1))"
      by code_simp
    then show "\<exists>run_start\<in>{0..<7}. \<exists>len\<in>{0..MAX_BAD_CHAPTERS}. len \<le> 7
             \<and> (\<forall>i\<in>{0..<7}.
                  (rotation example_bad_chapter_inside 7 run_start ! i = UINT64_MAX)
                    = (i < len))"
      by (intro bexI [of _ 5] bexI [of _ 1]) (simp_all add: MAX_BAD_CHAPTERS_def)
  qed
  ultimately show ?thesis by simp
qed

text \<open>
  Claim C1, amended. Take a volume of at most \<open>2^31\<close> chapters laid out as the search
  expects (\<open>chapter_layout\<close>): good increasing chapters, then the one run of bad
  chapters, then good increasing chapters older than chapter 0. If the bad run is shorter
  than \<open>maxBadChapters\<close>, \<open>findVolumeChapterBoundariesImpl\<close> returns \<open>UDS_SUCCESS\<close> and
  stores the least and the greatest virtual chapter number of the good chapters. If the
  bad run is longer than \<open>maxBadChapters\<close>, it fails with \<open>UDS_CORRUPT_COMPONENT\<close>.
\<close>

theorem boundaries_of_layout:
  assumes "0 < n" and "n \<le> 2 ^ 31" and "chapter_layout vcn n a k"
  shows "(k - a < maxBad \<longrightarrow>
            findVolumeChapterBoundariesImpl n maxBad (probe_of vcn)
              = Some (UDS_SUCCESS, Some (Min (good_vcns vcn n), Max (good_vcns vcn n))))
       \<and> (maxBad < k - a \<longrightarrow>
            findVolumeChapterBoundariesImpl n maxBad (probe_of vcn)
              = Some (UDS_CORRUPT_COMPONENT, None))"
proof (intro conjI impI)
  note p = chapter_layout_parts [OF assms(3)]
  have bad: "all_bad vcn a k" using assms(3) by (simp add: chapter_layout_def)
  {
    assume few: "k - a < maxBad"
    have "scan_backwards (probe_of vcn) n maxBad k 0
            = (UDS_SUCCESS, Some (vcn (if a = 0 then n - 1 else a - 1)))"
      using assms(1,2) p(1,2) bad few layout_highest(1) [OF assms(1,3)]
      by (intro scan_backwards_success) simp_all
    then show "findVolumeChapterBoundariesImpl n maxBad (probe_of vcn)
              = Some (UDS_SUCCESS, Some (Min (good_vcns vcn n), Max (good_vcns vcn n)))"
      by (simp add: boundaries_after_search [OF assms] layout_lowest(2) [OF assms(1,3)]
                    layout_highest(2) [OF assms(1,3)])
  }
  {
    assume many: "maxBad < k - a"
    then have "a < k" by simp
    then have "scan_backwards (probe_of vcn) n maxBad k 0 = (UDS_CORRUPT_COMPONENT, None)"
      using assms(1,2) p(2) bad many
      by (intro scan_backwards_too_many [where a = a]) simp_all
    then show "findVolumeChapterBoundariesImpl n maxBad (probe_of vcn)
              = Some (UDS_CORRUPT_COMPONENT, None)"
      by (simp add: boundaries_after_search [OF assms])
  }
qed

theorem boundaries_of_layout_witness:
  "(0 :: nat) < 7 \<and> (7 :: nat) \<le> 2 ^ 31
   \<and> chapter_layout example_bad_run_at_discontinuity 7 2 4
   \<and> (4 :: nat) - 2 < MAX_BAD_CHAPTERS
   \<and> findVolumeChapterBoundariesImpl 7 MAX_BAD_CHAPTERS
        (probe_of example_bad_run_at_discontinuity) = Some (UDS_SUCCESS, Some (7, 11))
   \<and> (1 :: nat) < 4 - 2
   \<and> findVolumeChapterBoundariesImpl 7 1 (probe_of example_bad_run_at_discontinuity)
       = Some (UDS_CORRUPT_COMPONENT, None)"
proof -
  have pos: "(0 :: nat) < 7" and small: "(7 :: nat) \<le> 2 ^ 31" by simp_all
  have layout: "chapter_layout example_bad_run_at_discontinuity 7 2 4"
    by code_simp
  have few: "(4 :: nat) - 2 < MAX_BAD_CHAPTERS" by (simp add: MAX_BAD_CHAPTERS_def)
  have many: "(1 :: nat) < 4 - 2" by simp
  have range: "Min (good_vcns example_bad_run_at_discontinuity 7) = 7
      \<and> Max (good_vcns example_bad_run_at_discontinuity 7) = 11"
    by code_simp
  from boundaries_of_layout [OF pos small layout, of MAX_BAD_CHAPTERS]
       boundaries_of_layout [OF pos small layout, of 1]
       layout few many range
  show ?thesis by simp
qed

text \<open>
  A bad run of exactly \<open>maxBadChapters\<close> chapters is already fatal: the scan gives up when
  its count reaches the maximum.
\<close>

lemma bad_run_of_maximal_length_is_fatal:
  "findVolumeChapterBoundariesImpl 7 2 (probe_of example_bad_run_at_discontinuity)
     = Some (UDS_CORRUPT_COMPONENT, None)"
  by (simp add: findVolumeChapterBoundariesImpl_def probe_of_def
        example_bad_run_at_discontinuity_def vcn_of_list_def search_discontinuity.simps
        scan_backwards.simps UINT64_MAX_def)

text \<open>
  Why the chapter limit is bounded by \<open>2 ^ 31\<close> in the property above: the midpoint
  \<open>(leftChapter + rightChapter) / 2\<close> is computed in \<open>unsigned int\<close>, so for a
  right end of \<open>2 ^ 32 - 1\<close> and a left end of 1 the sum wraps to 0, chapter 0 is probed,
  its number is never below \<open>firstVCN\<close>, and the left end is set to 1 again: the loop
  of the binary search does not leave this state.
\<close>

lemma search_wrapped_state_never_returns:
  "search_discontinuity probeFunc firstVCN leftChapter rightChapter = Some y \<Longrightarrow>
     \<not> (probeFunc = probe_of vcn \<and> firstVCN = vcn 0 \<and> leftChapter = 1
        \<and> rightChapter = 2 ^ 32 - 1)"
proof (induction rule: search_discontinuity.raw_induct [rotated 1, consumes 1])
  case (1 search_discontinuity probeFunc firstVCN leftChapter rightChapter y)
  show ?case
  proof
    assume a: "probeFunc = probe_of vcn \<and> firstVCN = vcn 0 \<and> leftChapter = 1
        \<and> rightChapter = 2 ^ 32 - 1"
    then have "search_discontinuity probeFunc firstVCN leftChapter rightChapter = Some y"
      using "1.hyps" by (simp add: probe_of_def Let_def)
    from "1.IH" [OF this] a show False by simp
  qed
qed

lemma search_discontinuity_can_run_forever:
  "search_discontinuity (probe_of vcn) (vcn 0) 1 (2 ^ 32 - 1) = None"
proof (cases "search_discontinuity (probe_of vcn) (vcn 0) 1 (2 ^ 32 - 1)")
  case None
  then show ?thesis .
next
  case (Some y)
  from search_wrapped_state_never_returns [OF Some, of vcn] show ?thesis by simp
qed

end
